theory Spec2Isabelle
  imports Complex_Main "HOL-Library.List_Lexorder"
begin

section \<open>Dice decathlon policy solvers\<close>

text \<open>
  A shallow embedding of the two solvers of the repository:
  \<^item> \<^verbatim>\<open>solvers/decathlon_100m_precompute.cpp\<close> (the sprint event), and
  \<^item> \<^verbatim>\<open>solvers/longjump_precompute.cpp\<close> (the jump event).

  Conventions of the embedding.
  \<^item> A C++ \<^verbatim>\<open>int\<close> is an \<^typ>\<open>int\<close>: every integer the solvers compute with is a die
    face, a count of at most five dice, a frozen sum of at most 30 or a score between
    -24 and 20 (or the sentinel 7777), so no operation comes near the 32-bit range.
  \<^item> A C++ \<^verbatim>\<open>double\<close> is a \<^typ>\<open>real\<close>: the arithmetic is exact, rounding is not modelled.
    Every statement below is a statement about the algorithm in exact arithmetic.
  \<^item> \<^verbatim>\<open>array<int,4>\<close>, \<^verbatim>\<open>array<int,6>\<close> and \<^verbatim>\<open>int c[7]\<close> are lists of integers;
    \<^verbatim>\<open>std::sort\<close> and \<^verbatim>\<open>std::map\<close> order arrays lexicographically, which is the order of
    lists of the library theory List_Lexorder.
\<close>

section \<open>The sprint event: decathlon_100m_precompute.cpp\<close>

subsection \<open>Data\<close>

text \<open>\<^verbatim>\<open>static const int SIDES[6] = {1,2,3,4,5,6};\<close>\<close>

definition SIDES :: "int list" where
  "SIDES = [1, 2, 3, 4, 5, 6]"

text \<open>
  \<^verbatim>\<open>score_set\<close>: the loop \<^verbatim>\<open>for(int v: d) s += (v==6 ? -6 : v)\<close> from \<^verbatim>\<open>s=0\<close>.
\<close>

definition score_set :: "int list \<Rightarrow> int" where
  "score_set d = fold (\<lambda>v s. s + (if v = 6 then - 6 else v)) d 0"

text \<open>\<^verbatim>\<open>struct State\<close>; the sentinel 7777 stands for "no set-1 score" at stage 1.\<close>

record State =
  stage :: int
  rerolls :: int
  dice :: "int list"
  set1_score :: int

text \<open>\<^verbatim>\<open>struct Moments { double ev=0, ev2=0; }\<close> (the same struct in both solvers).\<close>

record Moments =
  ev :: real
  ev2 :: real

record SolveRes =
  best :: Moments
  freeze_m :: Moments
  reroll_m :: "Moments option"
  best_action :: string

subsection \<open>The outcome list\<close>

text \<open>
  \<^verbatim>\<open>ensure_four_outs\<close> fills the global \<^verbatim>\<open>FOUR_OUTS\<close> once: the four nested loops over
  \<^verbatim>\<open>SIDES\<close> push the sorted tuple of every one of the 1296 rolls, then the vector is sorted
  and \<^verbatim>\<open>std::unique\<close> drops adjacent duplicates.
\<close>

definition raw_four_outs :: "int list list" where
  "raw_four_outs =
     concat (map (\<lambda>a. concat (map (\<lambda>b. concat (map (\<lambda>c.
       map (\<lambda>d. sort [a, b, c, d]) SIDES) SIDES)) SIDES)) SIDES)"

definition ensure_four_outs :: "int list list \<Rightarrow> int list list" where
  "ensure_four_outs outs =
     (if outs \<noteq> [] then outs else remdups_adj (sort raw_four_outs))"

text \<open>The global after \<^verbatim>\<open>main\<close> has called \<^verbatim>\<open>ensure_four_outs()\<close> on the empty vector.\<close>

definition FOUR_OUTS :: "int list list" where
  "FOUR_OUTS = ensure_four_outs []"

subsection \<open>The solver\<close>

text \<open>
  \<^verbatim>\<open>combine_avg\<close>: one weight \<^verbatim>\<open>w = 1.0/ms.size()\<close> for every element. On the empty vector
  the loop does not run and the result is \<^verbatim>\<open>{0, 0}\<close>.
\<close>

definition combine_avg :: "Moments list \<Rightarrow> Moments" where
  "combine_avg ms =
     (let w = 1 / real (length ms)
      in fold (\<lambda>m acc. \<lparr>ev = ev acc + w * ev m, ev2 = ev2 acc + w * ev2 m\<rparr>)
           ms \<lparr>ev = 0, ev2 = 0\<rparr>)"

text \<open>The lambda \<^verbatim>\<open>sd\<close> of \<^verbatim>\<open>solve_state\<close> (and, with the same body, of \<^verbatim>\<open>main\<close>).\<close>

definition sd :: "Moments \<Rightarrow> real" where
  "sd m = (let var = max 0 (ev2 m - ev m * ev m) in sqrt var)"

text \<open>The literal \<^verbatim>\<open>1e-12\<close> of line 85, the tolerance of an EV tie.\<close>

definition ev_tolerance :: real where
  "ev_tolerance = 1 / 10 ^ 12"

text \<open>
  The choice at the end of \<^verbatim>\<open>solve_state\<close> (lines 79 to 89): freeze is the default, and
  reroll replaces it when its EV is greater, or when the two EVs differ by less than
  \<^verbatim>\<open>1e-12\<close> and its SD is smaller.
\<close>

definition choose_best :: "Moments \<Rightarrow> Moments option \<Rightarrow> SolveRes" where
  "choose_best fm rm_opt =
     (case rm_opt of
        None \<Rightarrow> \<lparr>best = fm, freeze_m = fm, reroll_m = None, best_action = ''freeze''\<rparr>
      | Some rm \<Rightarrow>
          (let sd_f = sd fm; sd_r = sd rm
           in if ev rm > ev fm \<or> (\<bar>ev rm - ev fm\<bar> < ev_tolerance \<and> sd_r < sd_f)
              then \<lparr>best = rm, freeze_m = fm, reroll_m = Some rm, best_action = ''reroll''\<rparr>
              else \<lparr>best = fm, freeze_m = fm, reroll_m = Some rm, best_action = ''freeze''\<rparr>))"

text \<open>
  \<^verbatim>\<open>solve_state\<close>. Any stage other than 2 takes the \<^verbatim>\<open>else\<close> branch of the source, the
  fan-out into stage 2. The recursion ends: a call either lowers \<^verbatim>\<open>rerolls\<close> (when it is
  positive) or moves from a stage other than 2 to stage 2 with the same \<^verbatim>\<open>rerolls\<close>.
\<close>

function solve_state :: "State \<Rightarrow> SolveRes" where
  "solve_state s =
     (let freeze_m =
            (if stage s = 2 then
               (let total = set1_score s + score_set (dice s)
                in \<lparr>ev = real_of_int total, ev2 = real_of_int total * real_of_int total\<rparr>)
             else
               (let s1 = score_set (dice s);
                    kids = map (\<lambda>r. best (solve_state
                             \<lparr>stage = 2, rerolls = rerolls s, dice = sort r, set1_score = s1\<rparr>))
                           FOUR_OUTS
                in combine_avg kids));
          reroll_m =
            (if rerolls s > 0 then
               (let kids = map (\<lambda>r. best (solve_state
                             \<lparr>stage = stage s, rerolls = rerolls s - 1, dice = sort r,
                              set1_score = set1_score s\<rparr>))
                           FOUR_OUTS
                in Some (combine_avg kids))
             else None)
      in choose_best freeze_m reroll_m)"
  by pat_completeness auto
termination
  by (relation "measure (\<lambda>s. 2 * nat (rerolls s) + (if stage s = 2 then 0 else 1))") auto

declare solve_state.simps [simp del]

subsection \<open>The solver with its memo table\<close>

text \<open>
  \<^verbatim>\<open>unordered_map<State,SolveRes,StateHash> memo\<close> is a map from states to results, and
  \<^verbatim>\<open>solve_state\<close> with the table passed in and out is \<open>solve_state_memo\<close>: a state found in
  the table is answered from it; otherwise the two loops thread the table through the calls
  for the children, pushing each child's best moments onto \<^verbatim>\<open>kids\<close>, and \<^verbatim>\<open>memo.emplace\<close>
  stores the result unless the key is there. \<open>solve_state\<close> above is the same function
  without the table (lemma \<open>solve_state_memo_ok\<close>).
\<close>

type_synonym Memo = "State \<rightharpoonup> SolveRes"

function solve_state_memo :: "State \<Rightarrow> Memo \<Rightarrow> SolveRes \<times> Memo" where
  "solve_state_memo s memo =
     (case memo s of
        Some res \<Rightarrow> (res, memo)
      | None \<Rightarrow>
          (let fz =
                 (if stage s = 2 then
                    (let total = set1_score s + score_set (dice s)
                     in (\<lparr>ev = real_of_int total, ev2 = real_of_int total * real_of_int total\<rparr>,
                         memo))
                  else
                    (let s1 = score_set (dice s);
                         km = fold (\<lambda>r km.
                                (let cm = solve_state_memo
                                            \<lparr>stage = 2, rerolls = rerolls s, dice = sort r,
                                             set1_score = s1\<rparr> (snd km)
                                 in (fst km @ [best (fst cm)], snd cm)))
                              FOUR_OUTS ([], memo)
                     in (combine_avg (fst km), snd km)));
               rr =
                 (if rerolls s > 0 then
                    (let km = fold (\<lambda>r km.
                                (let cm = solve_state_memo
                                            \<lparr>stage = stage s, rerolls = rerolls s - 1,
                                             dice = sort r, set1_score = set1_score s\<rparr> (snd km)
                                 in (fst km @ [best (fst cm)], snd cm)))
                              FOUR_OUTS ([], snd fz)
                     in (Some (combine_avg (fst km)), snd km))
                  else (None, snd fz));
               res = choose_best (fst fz) (fst rr)
           in (res, if snd rr s = None then (snd rr)(s \<mapsto> res) else snd rr)))"
  by pat_completeness auto
termination
  apply (relation "measure (\<lambda>(s, memo). 2 * nat (rerolls s) + (if stage s = 2 then 0 else 1))")
  apply auto
  done


declare solve_state_memo.simps [simp del]

text \<open>
  The states \<^verbatim>\<open>main\<close> enumerates, in its order, and its loop
  \<^verbatim>\<open>for(auto& s: all) solve_state(s)\<close>, which leaves the table that is written out.
\<close>

definition all_states :: "State list" where
  "all_states =
     concat (map (\<lambda>r. map (\<lambda>d. \<lparr>stage = 1, rerolls = r, dice = d, set1_score = 7777\<rparr>) FOUR_OUTS)
               [0..5])
     @ concat (map (\<lambda>r. concat (map (\<lambda>d.
          map (\<lambda>s1. \<lparr>stage = 2, rerolls = r, dice = d, set1_score = s1\<rparr>) [- 24..20])
          FOUR_OUTS)) [0..5])"

definition solve_all :: "State list \<Rightarrow> Memo \<Rightarrow> Memo" where
  "solve_all states memo = fold (\<lambda>s m. snd (solve_state_memo s m)) states memo"

section \<open>The jump event: longjump_precompute.cpp\<close>

subsection \<open>Outcomes\<close>

text \<open>
  \<^verbatim>\<open>struct Counts { int c[7]; }\<close>: \<^verbatim>\<open>c[face]\<close> is the number of dice showing \<^verbatim>\<open>face\<close>, for
  faces 1 to 6; \<^verbatim>\<open>c[0]\<close> is set to 0 by the constructor and never used.
\<close>

type_synonym Counts = "int list"

text \<open>
  \<^verbatim>\<open>m[a] += x\<close> on the \<^verbatim>\<open>std::map<array<int,6>, double>\<close> of \<^verbatim>\<open>build_outcomes\<close>: the map
  is the list of its entries in key order; a key that is absent is inserted with the
  value 0 before the addition.
\<close>

fun map_add_at :: "int list \<Rightarrow> real \<Rightarrow> (int list \<times> real) list \<Rightarrow> (int list \<times> real) list" where
  "map_add_at k x [] = [(k, 0 + x)]"
| "map_add_at k x ((k', v) # m) =
     (if k = k' then (k', v + x) # m
      else if k < k' then (k, 0 + x) # (k', v) # m
      else (k', v) # map_add_at k x m)"

text \<open>
  The recursive lambda \<^verbatim>\<open>rec\<close> of \<^verbatim>\<open>build_outcomes\<close>. It is called with \<^verbatim>\<open>left = n\<close> for
  \<^verbatim>\<open>n\<close> from 1 to 5 only, so \<^verbatim>\<open>left\<close> is a natural number. The source increments
  \<^verbatim>\<open>a[face-1]\<close>, recurses and decrements it again; here the recursive call gets the
  incremented array and the loop goes on with the old one.
\<close>

fun rec_outcomes :: "int \<Rightarrow> nat \<Rightarrow> int list \<Rightarrow> (int list \<times> real) list \<Rightarrow> (int list \<times> real) list" where
  "rec_outcomes tot 0 a m = map_add_at a (1 / real_of_int tot) m"
| "rec_outcomes tot (Suc left) a m =
     fold (\<lambda>face m. rec_outcomes tot left (a[nat (face - 1) := a ! nat (face - 1) + 1]) m)
       [1..6] m"

text \<open>
  One round of the loop of \<^verbatim>\<open>build_outcomes\<close>: \<^verbatim>\<open>total = pow(6,n)\<close>, the enumeration from
  the zero array, and the copy of every map entry into a \<^verbatim>\<open>Counts\<close> (\<^verbatim>\<open>cnt.c[i] = kv.first[i-1]\<close>).
\<close>

definition build_outcomes :: "nat \<Rightarrow> (Counts \<times> real) list" where
  "build_outcomes n =
     (let tot = 6 ^ n;
          m = rec_outcomes tot n [0, 0, 0, 0, 0, 0] []
      in map (\<lambda>kv. (0 # fst kv, snd kv)) m)"

text \<open>
  The global \<^verbatim>\<open>outcomes_cache[6]\<close> after \<^verbatim>\<open>build_outcomes()\<close>: entries 1 to 5 are built and
  entry 0 stays the empty vector. An index outside 0 to 5 is outside the array; the solvers
  never use one when started from \<^verbatim>\<open>solve_runup_pre(5,0)\<close> (lemma \<open>runup_reach_bounds\<close>), and the
  embedding gives the empty vector there.
\<close>

definition outcomes_cache :: "int \<Rightarrow> (Counts \<times> real) list" where
  "outcomes_cache n = (if 1 \<le> n \<and> n \<le> 5 then build_outcomes (nat n) else [])"

subsection \<open>The solvers\<close>

text \<open>
  The loop that freezes \<^verbatim>\<open>needed\<close> dice, over the faces in the order given (6 down to 1 in the
  jump, 1 up to 6 in the run-up); it stops as soon as \<^verbatim>\<open>needed > 0\<close> fails.
\<close>

fun take_dice :: "Counts \<Rightarrow> int list \<Rightarrow> int \<Rightarrow> int \<Rightarrow> int" where
  "take_dice c [] frozen_sum needed = frozen_sum"
| "take_dice c (face # faces) frozen_sum needed =
     (if needed > 0 then
        (let take = min (c ! nat face) needed
         in take_dice c faces (frozen_sum + face * take) (needed - take))
      else frozen_sum)"

text \<open>
  \<^verbatim>\<open>solve_jump_pre\<close>. The triple is \<^verbatim>\<open>(best_ev, best_ev2, best_fc)\<close>, starting from
  \<^verbatim>\<open>(-1e100, 0, 1)\<close>.
\<close>

function solve_jump_pre :: "int \<Rightarrow> Moments" where
  "solve_jump_pre n_rem =
     (if n_rem = 0 then \<lparr>ev = 0, ev2 = 0\<rparr>
      else fold (\<lambda>pr acc.
             (let cnt = fst pr; p = snd pr;
                  b = fold (\<lambda>freeze_count b.
                        (let frozen_sum = take_dice cnt [6, 5, 4, 3, 2, 1] 0 freeze_count;
                             tail = solve_jump_pre (n_rem - freeze_count);
                             e = real_of_int frozen_sum + ev tail;
                             e2 = real_of_int (frozen_sum * frozen_sum)
                                  + 2 * real_of_int frozen_sum * ev tail + ev2 tail
                         in if e > fst b then (e, e2, freeze_count) else b))
                      [1..n_rem] (- (10 ^ 100), 0, 1)
              in \<lparr>ev = ev acc + p * fst b, ev2 = ev2 acc + p * fst (snd b)\<rparr>))
           (outcomes_cache n_rem) \<lparr>ev = 0, ev2 = 0\<rparr>)"
  by pat_completeness auto
termination
  by (relation "measure nat") auto

declare solve_jump_pre.simps [simp del]

text \<open>
  One step of the inner loop of \<^verbatim>\<open>solve_jump_pre\<close> (lines 92 to 105), and the whole inner
  loop for one outcome: the triple it ends with holds the moments added to the sums and the
  freeze count written to \<^verbatim>\<open>best_jump_freeze[{cnt}]\<close>.
\<close>

definition jump_step :: "int \<Rightarrow> Counts \<Rightarrow> int \<Rightarrow> real \<times> real \<times> int \<Rightarrow> real \<times> real \<times> int" where
  "jump_step n_rem cnt freeze_count b =
     (let frozen_sum = take_dice cnt [6, 5, 4, 3, 2, 1] 0 freeze_count;
          tail = solve_jump_pre (n_rem - freeze_count);
          e = real_of_int frozen_sum + ev tail;
          e2 = real_of_int (frozen_sum * frozen_sum)
               + 2 * real_of_int frozen_sum * ev tail + ev2 tail
      in if e > fst b then (e, e2, freeze_count) else b)"

definition jump_choice :: "int \<Rightarrow> Counts \<Rightarrow> real \<times> real \<times> int" where
  "jump_choice n_rem cnt = fold (jump_step n_rem cnt) [1..n_rem] (- (10 ^ 100), 0, 1)"

text \<open>
  \<^verbatim>\<open>solve_runup_pre\<close>. The triple is \<^verbatim>\<open>(best_ev, best_ev2, best_fc)\<close>, starting from the
  moments of stopping, with \<^verbatim>\<open>best_fc = 0\<close>; a freeze count that would push the frozen sum
  over 8 is passed over by \<^verbatim>\<open>continue\<close>.
\<close>

function solve_runup_pre :: "int \<Rightarrow> int \<Rightarrow> Moments" where
  "solve_runup_pre n_rem s =
     (if s > 8 then \<lparr>ev = 0, ev2 = 0\<rparr>
      else
        (let k = 5 - n_rem;
             stopM = solve_jump_pre k
         in fold (\<lambda>pr acc.
              (let cnt = fst pr; p = snd pr;
                   b = fold (\<lambda>freeze_count b.
                         (let frozen_sum = take_dice cnt [1, 2, 3, 4, 5, 6] 0 freeze_count
                          in if s + frozen_sum > 8 then b
                             else
                               (let tail = solve_runup_pre (n_rem - freeze_count) (s + frozen_sum)
                                in if ev tail > fst b then (ev tail, ev2 tail, freeze_count)
                                   else b)))
                       [1..n_rem] (ev stopM, ev2 stopM, 0)
               in \<lparr>ev = ev acc + p * fst b, ev2 = ev2 acc + p * fst (snd b)\<rparr>))
            (outcomes_cache n_rem) \<lparr>ev = 0, ev2 = 0\<rparr>))"
  by pat_completeness auto
termination
  by (relation "measure (\<lambda>(n, s). nat n)") auto

declare solve_runup_pre.simps [simp del]

text \<open>
  One step of the inner loop of \<^verbatim>\<open>solve_runup_pre\<close> (lines 121 to 133), and the whole inner
  loop for one outcome: the triple it ends with holds the moments added to the sums and the
  freeze count written to \<^verbatim>\<open>best_runup_freeze[{s,cnt}]\<close>.
\<close>

definition runup_step :: "int \<Rightarrow> int \<Rightarrow> Counts \<Rightarrow> int \<Rightarrow> real \<times> real \<times> int \<Rightarrow> real \<times> real \<times> int" where
  "runup_step n_rem s cnt freeze_count b =
     (let frozen_sum = take_dice cnt [1, 2, 3, 4, 5, 6] 0 freeze_count
      in if s + frozen_sum > 8 then b
         else
           (let tail = solve_runup_pre (n_rem - freeze_count) (s + frozen_sum)
            in if ev tail > fst b then (ev tail, ev2 tail, freeze_count) else b))"

definition runup_choice :: "int \<Rightarrow> int \<Rightarrow> Counts \<Rightarrow> real \<times> real \<times> int" where
  "runup_choice n_rem s cnt =
     (let k = 5 - n_rem;
          stopM = solve_jump_pre k
      in fold (runup_step n_rem s cnt) [1..n_rem] (ev stopM, ev2 stopM, 0))"

text \<open>
  The moments of stopping, the local \<^verbatim>\<open>stopM\<close> of a call \<^verbatim>\<open>solve_runup_pre(n_rem, s)\<close> that
  passes the guard (lines 115 and 116); \<open>runup_choice\<close> starts from them.
\<close>

definition runup_stopM :: "int \<Rightarrow> int \<Rightarrow> Moments" where
  "runup_stopM n_rem s = (let k = 5 - n_rem in solve_jump_pre k)"

text \<open>
  The calls of \<^verbatim>\<open>solve_runup_pre\<close>: \<^verbatim>\<open>main\<close> calls it at \<^verbatim>\<open>(5, 0)\<close>, and a call that passes the
  guard \<^verbatim>\<open>s > 8\<close> calls it, for every outcome of \<^verbatim>\<open>outcomes_cache[n_rem]\<close> and every freeze
  count from 1 to \<^verbatim>\<open>n_rem\<close> that is not passed over, at the remaining dice and the new sum.
  (A call answered from \<^verbatim>\<open>memo_runup\<close> makes no further calls; the first call with the same
  arguments made them.)
\<close>

inductive runup_reach :: "int \<Rightarrow> int \<Rightarrow> bool" where
  runup_init: "runup_reach 5 0"
| runup_call:
    "runup_reach n_rem s \<Longrightarrow> \<not> s > 8 \<Longrightarrow> pr \<in> set (outcomes_cache n_rem) \<Longrightarrow>
     freeze_count \<in> set [1..n_rem] \<Longrightarrow>
     frozen_sum = take_dice (fst pr) [1, 2, 3, 4, 5, 6] 0 freeze_count \<Longrightarrow>
     \<not> s + frozen_sum > 8 \<Longrightarrow>
     runup_reach (n_rem - freeze_count) (s + frozen_sum)"

text \<open>The end of \<^verbatim>\<open>main\<close>: the attempt's EV, and its SD from the clamped variance.\<close>

definition attempt_sd_of :: "Moments \<Rightarrow> real" where
  "attempt_sd_of attemptM =
     (let var = max 0 (ev2 attemptM - ev attemptM * ev attemptM) in sqrt var)"

definition attempt_ev :: real where
  "attempt_ev = ev (solve_runup_pre 5 0)"

definition attempt_sd :: real where
  "attempt_sd = attempt_sd_of (solve_runup_pre 5 0)"

section \<open>Definitions used in the statements and proofs\<close>

text \<open>
  The sorted four-dice tuples generated directly (first die at most the second, and so on),
  and the same list written out. \<open>FOUR_OUTS\<close> is proved equal to both.
\<close>

definition canon4 :: "int list list" where
  "canon4 =
     concat (map (\<lambda>a. concat (map (\<lambda>b. concat (map (\<lambda>c.
       map (\<lambda>d. [a, b, c, d]) [c..6]) [b..6])) [a..6])) [1..6])"

definition four_outs_list :: "int list list" where
  "four_outs_list =
     [[1, 1, 1, 1], [1, 1, 1, 2], [1, 1, 1, 3], [1, 1, 1, 4], [1, 1, 1, 5], [1, 1, 1, 6],
      [1, 1, 2, 2], [1, 1, 2, 3], [1, 1, 2, 4], [1, 1, 2, 5], [1, 1, 2, 6], [1, 1, 3, 3],
      [1, 1, 3, 4], [1, 1, 3, 5], [1, 1, 3, 6], [1, 1, 4, 4], [1, 1, 4, 5], [1, 1, 4, 6],
      [1, 1, 5, 5], [1, 1, 5, 6], [1, 1, 6, 6], [1, 2, 2, 2], [1, 2, 2, 3], [1, 2, 2, 4],
      [1, 2, 2, 5], [1, 2, 2, 6], [1, 2, 3, 3], [1, 2, 3, 4], [1, 2, 3, 5], [1, 2, 3, 6],
      [1, 2, 4, 4], [1, 2, 4, 5], [1, 2, 4, 6], [1, 2, 5, 5], [1, 2, 5, 6], [1, 2, 6, 6],
      [1, 3, 3, 3], [1, 3, 3, 4], [1, 3, 3, 5], [1, 3, 3, 6], [1, 3, 4, 4], [1, 3, 4, 5],
      [1, 3, 4, 6], [1, 3, 5, 5], [1, 3, 5, 6], [1, 3, 6, 6], [1, 4, 4, 4], [1, 4, 4, 5],
      [1, 4, 4, 6], [1, 4, 5, 5], [1, 4, 5, 6], [1, 4, 6, 6], [1, 5, 5, 5], [1, 5, 5, 6],
      [1, 5, 6, 6], [1, 6, 6, 6], [2, 2, 2, 2], [2, 2, 2, 3], [2, 2, 2, 4], [2, 2, 2, 5],
      [2, 2, 2, 6], [2, 2, 3, 3], [2, 2, 3, 4], [2, 2, 3, 5], [2, 2, 3, 6], [2, 2, 4, 4],
      [2, 2, 4, 5], [2, 2, 4, 6], [2, 2, 5, 5], [2, 2, 5, 6], [2, 2, 6, 6], [2, 3, 3, 3],
      [2, 3, 3, 4], [2, 3, 3, 5], [2, 3, 3, 6], [2, 3, 4, 4], [2, 3, 4, 5], [2, 3, 4, 6],
      [2, 3, 5, 5], [2, 3, 5, 6], [2, 3, 6, 6], [2, 4, 4, 4], [2, 4, 4, 5], [2, 4, 4, 6],
      [2, 4, 5, 5], [2, 4, 5, 6], [2, 4, 6, 6], [2, 5, 5, 5], [2, 5, 5, 6], [2, 5, 6, 6],
      [2, 6, 6, 6], [3, 3, 3, 3], [3, 3, 3, 4], [3, 3, 3, 5], [3, 3, 3, 6], [3, 3, 4, 4],
      [3, 3, 4, 5], [3, 3, 4, 6], [3, 3, 5, 5], [3, 3, 5, 6], [3, 3, 6, 6], [3, 4, 4, 4],
      [3, 4, 4, 5], [3, 4, 4, 6], [3, 4, 5, 5], [3, 4, 5, 6], [3, 4, 6, 6], [3, 5, 5, 5],
      [3, 5, 5, 6], [3, 5, 6, 6], [3, 6, 6, 6], [4, 4, 4, 4], [4, 4, 4, 5], [4, 4, 4, 6],
      [4, 4, 5, 5], [4, 4, 5, 6], [4, 4, 6, 6], [4, 5, 5, 5], [4, 5, 5, 6], [4, 5, 6, 6],
      [4, 6, 6, 6], [5, 5, 5, 5], [5, 5, 5, 6], [5, 5, 6, 6], [5, 6, 6, 6], [6, 6, 6, 6]]"

text \<open>
  The probability of a canonical outcome under independent fair dice, in the words of the
  specification: its multinomial coefficient (the number of orderings of the multiset)
  divided by 6 to the number of dice; and the average of child moments weighted by it.
\<close>

definition multinomial_coeff :: "int list \<Rightarrow> real" where
  "multinomial_coeff r = fact (length r) / prod_list (map (\<lambda>f. fact (count_list r f)) SIDES)"

definition outcome_prob :: "int list \<Rightarrow> real" where
  "outcome_prob r = multinomial_coeff r / 6 ^ length r"

definition spec_weighted_avg :: "(int list \<Rightarrow> Moments) \<Rightarrow> Moments" where
  "spec_weighted_avg child =
     \<lparr>ev = sum_list (map (\<lambda>r. outcome_prob r * ev (child r)) FOUR_OUTS),
      ev2 = sum_list (map (\<lambda>r. outcome_prob r * ev2 (child r)) FOUR_OUTS)\<rparr>"

text \<open>
  The count arrays that \<^verbatim>\<open>rec\<close> reaches from the array \<open>a\<close> with \<open>left\<close> dice to go: every
  entry at least that of \<open>a\<close>, and \<open>left\<close> more dice in total.
\<close>

definition comps_from :: "nat \<Rightarrow> int list \<Rightarrow> int list set" where
  "comps_from left a =
     {v. length v = length a \<and> (\<forall>i<length a. a ! i \<le> v ! i) \<and> sum_list v = sum_list a + int left}"

text \<open>
  The best EV of a sprint state given by its four fields, and the EV of the average of the
  best moments over the 126 outcomes (the EV of a reroll or of the stage-1 fan-out into such
  states).
\<close>

definition best_ev :: "int \<Rightarrow> int \<Rightarrow> int list \<Rightarrow> int \<Rightarrow> real" where
  "best_ev st r d s1 =
     ev (best (solve_state \<lparr>stage = st, rerolls = r, dice = d, set1_score = s1\<rparr>))"

definition avg_best_ev :: "int \<Rightarrow> int \<Rightarrow> int \<Rightarrow> real" where
  "avg_best_ev st r s1 =
     ev (combine_avg (map (\<lambda>d. best (solve_state
          \<lparr>stage = st, rerolls = r, dice = d, set1_score = s1\<rparr>)) FOUR_OUTS))"

text \<open>A memo table is sound when every entry is the result of \<open>solve_state\<close> for its key.\<close>

definition memo_ok :: "Memo \<Rightarrow> bool" where
  "memo_ok memo = (\<forall>s res. memo s = Some res \<longrightarrow> res = solve_state s)"

text \<open>
  The triple an outcome ends with is the stop triple, or the moments of the run-up state
  that a freeze count between 1 and \<open>n_rem\<close> within the ceiling leads to, unchanged.
\<close>

definition runup_candidate :: "int \<Rightarrow> int \<Rightarrow> Counts \<Rightarrow> real \<times> real \<times> int \<Rightarrow> bool" where
  "runup_candidate n_rem s cnt b =
     (b = (ev (runup_stopM n_rem s), ev2 (runup_stopM n_rem s), 0)
      \<or> (1 \<le> snd (snd b) \<and> snd (snd b) \<le> n_rem
         \<and> s + take_dice cnt [1, 2, 3, 4, 5, 6] 0 (snd (snd b)) \<le> 8
         \<and> b = (ev (solve_runup_pre (n_rem - snd (snd b))
                      (s + take_dice cnt [1, 2, 3, 4, 5, 6] 0 (snd (snd b)))),
                 ev2 (solve_runup_pre (n_rem - snd (snd b))
                      (s + take_dice cnt [1, 2, 3, 4, 5, 6] 0 (snd (snd b)))),
                 snd (snd b))))"


text \<open>
  \<^verbatim>\<open>solve_runup_pre\<close> with the ceiling, the constant 8 of its guard and of its test before
  \<^verbatim>\<open>continue\<close>, as a parameter \<open>c\<close>; everything else is the body of \<open>solve_runup_pre\<close>. It is
  \<open>solve_runup_pre\<close> at \<open>c = 8\<close> (lemma \<open>solve_runup_ceiling_8\<close>), and serves to state that a
  frozen sum acts through its distance to the ceiling only.
\<close>

function solve_runup_ceiling :: "int \<Rightarrow> int \<Rightarrow> int \<Rightarrow> Moments" where
  "solve_runup_ceiling c n_rem s =
     (if s > c then \<lparr>ev = 0, ev2 = 0\<rparr>
      else
        (let k = 5 - n_rem;
             stopM = solve_jump_pre k
         in fold (\<lambda>pr acc.
              (let cnt = fst pr; p = snd pr;
                   b = fold (\<lambda>freeze_count b.
                         (let frozen_sum = take_dice cnt [1, 2, 3, 4, 5, 6] 0 freeze_count
                          in if s + frozen_sum > c then b
                             else
                               (let tail = solve_runup_ceiling c (n_rem - freeze_count)
                                             (s + frozen_sum)
                                in if ev tail > fst b then (ev tail, ev2 tail, freeze_count)
                                   else b)))
                       [1..n_rem] (ev stopM, ev2 stopM, 0)
               in \<lparr>ev = ev acc + p * fst b, ev2 = ev2 acc + p * fst (snd b)\<rparr>))
            (outcomes_cache n_rem) \<lparr>ev = 0, ev2 = 0\<rparr>))"
  by pat_completeness auto
termination
  by (relation "measure (\<lambda>(c, n, s). nat n)") auto

declare solve_runup_ceiling.simps [simp del]
section \<open>The sprint event: the outcome list\<close>

lemma set_SIDES: "set SIDES = {1..6}"
  by (auto simp: SIDES_def)

lemma in_concat_map: "x \<in> set (concat (map f xs)) \<longleftrightarrow> (\<exists>a \<in> set xs. x \<in> set (f a))"
  by auto

lemma in_raw_four_outs:
  "x \<in> set raw_four_outs \<longleftrightarrow>
     (\<exists>a b c d. a \<in> {1..6} \<and> b \<in> {1..6} \<and> c \<in> {1..6} \<and> d \<in> {1..6} \<and> x = sort [a, b, c, d])"
  unfolding raw_four_outs_def
  by (simp only: in_concat_map set_map image_iff set_SIDES Bex_def) blast

lemma in_canon4:
  "x \<in> set canon4 \<longleftrightarrow>
     (\<exists>a b c d. 1 \<le> a \<and> a \<le> b \<and> b \<le> c \<and> c \<le> d \<and> d \<le> 6 \<and> x = [a, b, c, d])"
  unfolding canon4_def
  apply (simp only: in_concat_map set_map image_iff set_upto Bex_def atLeastAtMost_iff)
  apply (rule iffI)
   apply (elim exE conjE)
   apply (intro exI conjI; (assumption | linarith))
  apply (elim exE conjE)
  apply (intro exI conjI; (assumption | linarith)?)
  done

lemma length_four_cases: "length xs = 4 \<Longrightarrow> \<exists>a b c d. xs = [a, b, c, d]"
  by (auto simp: numeral_eq_Suc length_Suc_conv)

lemma sort_in_canon4:
  assumes "a \<in> {1..6::int}" "b \<in> {1..6}" "c \<in> {1..6}" "d \<in> {1..6}"
  shows "sort [a, b, c, d] \<in> set canon4"
proof -
  let ?s = "sort [a, b, c, d]"
  have len: "length ?s = 4" by simp
  have srt: "sorted ?s" by (rule sorted_sort)
  have st: "set ?s = {a, b, c, d}" by (simp only: set_sort) auto
  obtain a' b' c' d' where e: "?s = [a', b', c', d']"
    using length_four_cases[OF len] by blast
  have ord: "a' \<le> b'" "b' \<le> c'" "c' \<le> d'" using srt unfolding e by auto
  have "set [a', b', c', d'] \<subseteq> {1..6}" using st assms unfolding e by auto
  then have "1 \<le> a'" "d' \<le> 6" by auto
  then show ?thesis unfolding in_canon4 e using ord by blast
qed

lemma canon4_in_raw:
  assumes "x \<in> set canon4"
  shows "x \<in> set raw_four_outs"
proof -
  from assms obtain a b c d
    where h: "1 \<le> a" "a \<le> b" "b \<le> c" "c \<le> d" "d \<le> 6" "x = [a, b, c, d]"
    unfolding in_canon4 by blast
  then have "sorted x" by simp
  then have "x = sort [a, b, c, d]" using h(6) sorted_sort_id by metis
  moreover have "a \<in> {1..6}" "b \<in> {1..6}" "c \<in> {1..6}" "d \<in> {1..6}" using h by auto
  ultimately show ?thesis unfolding in_raw_four_outs by blast
qed

lemma set_raw_four_outs: "set raw_four_outs = set canon4"
proof (intro equalityI subsetI)
  fix x assume "x \<in> set raw_four_outs"
  then show "x \<in> set canon4" unfolding in_raw_four_outs using sort_in_canon4 by blast
next
  fix x assume "x \<in> set canon4"
  then show "x \<in> set raw_four_outs" by (rule canon4_in_raw)
qed

lemma canon4_explicit: "canon4 = four_outs_list"
  unfolding canon4_def four_outs_list_def
  by (simp add: upto.simps)

lemma successively_four_outs_list: "successively (<) four_outs_list"
  unfolding four_outs_list_def
  by (simp add: successively_Cons)

lemma strict_sorted_four_outs_list: "sorted_wrt (<) four_outs_list"
proof -
  have "transp ((<) :: int list \<Rightarrow> int list \<Rightarrow> bool)" by (rule transp_on_less)
  from successively_conv_sorted_wrt[OF this] successively_four_outs_list
  show ?thesis by blast
qed

lemma distinct_remdups_adj_sorted: "sorted xs \<Longrightarrow> distinct (remdups_adj xs)"
  by (induction xs rule: remdups_adj.induct) auto

lemma FOUR_OUTS_eq: "FOUR_OUTS = four_outs_list"
proof -
  have 1: "sorted FOUR_OUTS" "distinct FOUR_OUTS"
    by (simp_all add: FOUR_OUTS_def ensure_four_outs_def distinct_remdups_adj_sorted)
  have 2: "sorted four_outs_list" "distinct four_outs_list"
    using strict_sorted_four_outs_list by (simp_all add: strict_sorted_iff)
  have 3: "set FOUR_OUTS = set four_outs_list"
    by (simp add: FOUR_OUTS_def ensure_four_outs_def set_raw_four_outs canon4_explicit)
  show ?thesis by (rule sorted_distinct_set_unique[OF 1 2 3])
qed

lemma length_FOUR_OUTS: "length FOUR_OUTS = 126"
  by (simp add: FOUR_OUTS_eq four_outs_list_def)

lemma distinct_FOUR_OUTS: "distinct FOUR_OUTS"
  using strict_sorted_four_outs_list by (simp add: FOUR_OUTS_eq strict_sorted_iff)

lemma FOUR_OUTS_sorted_entries: "r \<in> set FOUR_OUTS \<Longrightarrow> sort r = r"
proof -
  assume "r \<in> set FOUR_OUTS"
  then have "r \<in> set canon4" by (simp add: FOUR_OUTS_eq canon4_explicit)
  then obtain a b c d
    where h: "a \<le> b" "b \<le> c" "c \<le> d" "r = [a, b, c, d]"
    unfolding in_canon4 by blast
  then have "sorted r" by simp
  then show ?thesis by (rule sorted_sort_id)
qed

section \<open>The jump event: the outcome tables\<close>

subsection \<open>The keys of the map\<close>

lemma map_add_at_keys: "set (map fst (map_add_at k x m)) = insert k (set (map fst m))"
  by (induction k x m rule: map_add_at.induct) auto

lemma map_add_at_sorted:
  "sorted_wrt (<) (map fst m) \<Longrightarrow> sorted_wrt (<) (map fst (map_add_at k x m))"
proof (induction m)
  case Nil
  then show ?case by simp
next
  case (Cons kv m)
  obtain k' v where kv: "kv = (k', v)" by (cases kv)
  show ?case
  proof (cases "k = k'")
    case True
    with Cons.prems kv show ?thesis by simp
  next
    case ne: False
    show ?thesis
    proof (cases "k < k'")
      case True
      with Cons.prems kv ne show ?thesis by (auto intro: less_trans)
    next
      case False
      with ne have lt: "k' < k" by simp
      from Cons.prems kv have tl: "sorted_wrt (<) (map fst m)" and hd: "\<forall>y\<in>set (map fst m). k' < y"
        by simp_all
      from Cons.IH[OF tl] lt hd False ne kv show ?thesis
        by (simp add: map_add_at_keys del: set_map)
    qed
  qed
qed

lemma fold_faces: "fold f [1..6] m = f 6 (f 5 (f 4 (f 3 (f 2 (f 1 m)))))"
  by (simp add: upto.simps)

lemma rec_outcomes_sorted:
  "sorted_wrt (<) (map fst m) \<Longrightarrow> sorted_wrt (<) (map fst (rec_outcomes tot left a m))"
proof (induction left arbitrary: a m)
  case 0
  then show ?case by (simp add: map_add_at_sorted)
next
  case (Suc left)
  show ?case
    unfolding rec_outcomes.simps fold_faces
    by (intro Suc.IH Suc.prems)
qed

lemma pointwise_le_sum_eq:
  fixes xs ys :: "int list"
  assumes "length xs = length ys" "\<forall>i<length xs. xs ! i \<le> ys ! i" "sum_list xs = sum_list ys"
  shows "xs = ys"
  using assms
proof (induction xs ys rule: list_induct2)
  case Nil
  then show ?case by simp
next
  case (Cons x xs y ys)
  from Cons.prems(1) have hd: "x \<le> y" by auto
  from Cons.prems(1) have tl: "\<forall>i<length xs. xs ! i \<le> ys ! i" by auto
  have "sum_list xs \<le> sum_list ys"
    by (rule sum_list_mono2) (use Cons.hyps tl in auto)
  with hd Cons.prems(2) have "x = y" "sum_list xs = sum_list ys" by auto
  with Cons.IH[OF tl] show ?case by simp
qed

lemma sum_list_update_int:
  fixes a :: "int list"
  shows "i < length a \<Longrightarrow> sum_list (a[i := x]) = sum_list a + x - a ! i"
  by (induction a arbitrary: i) (auto split: nat.splits)

lemma comps_from_0: "comps_from 0 a = {a}"
proof (intro equalityI subsetI)
  fix v assume "v \<in> comps_from 0 a"
  then have "length a = length v" "\<forall>i<length a. a ! i \<le> v ! i" "sum_list a = sum_list v"
    by (simp_all add: comps_from_def)
  from pointwise_le_sum_eq[OF this] show "v \<in> {a}" by simp
next
  fix v assume "v \<in> {a}"
  then show "v \<in> comps_from 0 a" by (simp add: comps_from_def)
qed

lemma comps_from_Suc:
  "comps_from (Suc left) a = (\<Union>i<length a. comps_from left (a[i := a ! i + 1]))"
proof (intro equalityI subsetI)
  fix v assume v: "v \<in> comps_from (Suc left) a"
  then have len: "length v = length a" and le: "\<forall>i<length a. a ! i \<le> v ! i"
    and sm: "sum_list v = sum_list a + int left + 1"
    by (simp_all add: comps_from_def)
  have "\<exists>i<length a. a ! i < v ! i"
  proof (rule ccontr)
    assume c: "\<not> (\<exists>i<length a. a ! i < v ! i)"
    have pw: "v ! i \<le> a ! i" if "i < length v" for i
    proof -
      from that len have "i < length a" by simp
      with c have "\<not> a ! i < v ! i" by blast
      then show ?thesis by simp
    qed
    have "sum_list v \<le> sum_list a"
      by (rule sum_list_mono2[OF len]) (use pw in blast)
    with sm show False by simp
  qed
  then obtain i where i: "i < length a" "a ! i < v ! i" by blast
  have "v \<in> comps_from left (a[i := a ! i + 1])"
    using len le sm i by (auto simp: comps_from_def nth_list_update sum_list_update_int)
  with i(1) show "v \<in> (\<Union>i<length a. comps_from left (a[i := a ! i + 1]))" by blast
next
  fix v assume "v \<in> (\<Union>i<length a. comps_from left (a[i := a ! i + 1]))"
  then obtain i where i: "i < length a" and v: "v \<in> comps_from left (a[i := a ! i + 1])"
    by blast
  from v have len: "length v = length a"
    and le: "\<forall>j<length a. (a[i := a ! i + 1]) ! j \<le> v ! j"
    and sm: "sum_list v = sum_list (a[i := a ! i + 1]) + int left"
    by (simp_all add: comps_from_def)
  have "\<forall>j<length a. a ! j \<le> v ! j"
  proof (intro allI impI)
    fix j assume j: "j < length a"
    with le have "(a[i := a ! i + 1]) ! j \<le> v ! j" by blast
    with i j show "a ! j \<le> v ! j" by (cases "j = i") (auto simp: nth_list_update)
  qed
  with len sm i show "v \<in> comps_from (Suc left) a"
    by (simp add: comps_from_def sum_list_update_int)
qed

lemma lessThan_6: "{..<6::nat} = {0, 1, 2, 3, 4, 5}"
  by auto

lemma rec_outcomes_keys:
  "length a = 6 \<Longrightarrow>
   set (map fst (rec_outcomes tot left a m)) = set (map fst m) \<union> comps_from left a"
proof (induction left arbitrary: a m)
  case 0
  then show ?case by (simp add: map_add_at_keys comps_from_0 del: set_map)
next
  case (Suc left)
  have len: "\<And>i x. length (a[i := x]) = 6" using Suc.prems by simp
  show ?case
    unfolding rec_outcomes.simps fold_faces comps_from_Suc Suc.prems lessThan_6
    by (simp only: Suc.IH[OF len]) (simp add: Un_ac)
qed

subsection \<open>The number of outcomes\<close>

lemma int_sum_list: "int (sum_list l) = sum_list (map int l)"
  by (induction l) auto

lemma zeros6: "[0, 0, 0, 0, 0, 0::int] = replicate 6 0"
  by (simp add: numeral_eq_Suc)

lemma comps_from_zero_props:
  assumes "v \<in> comps_from n [0, 0, 0, 0, 0, 0]"
  shows "length v = 6" "sum_list v = int n" "\<forall>x\<in>set v. 0 \<le> x"
proof -
  from assms have v: "v \<in> comps_from n (replicate 6 0)" by (simp only: zeros6)
  then show len: "length v = 6" and sm: "sum_list v = int n"
    by (simp_all add: comps_from_def sum_list_replicate)
  have nn: "0 \<le> v ! i" if "i < 6" for i
    using v that by (simp add: comps_from_def)
  show pos: "\<forall>x\<in>set v. 0 \<le> x"
  proof
    fix x assume "x \<in> set v"
    then obtain i where "i < length v" "x = v ! i" by (metis in_set_conv_nth)
    then show "0 \<le> x" using nn len by simp
  qed
qed

lemma comps_from_zero:
  "comps_from n [0, 0, 0, 0, 0, 0] = map int ` {l. length l = 6 \<and> sum_list l = n}"
proof (intro equalityI subsetI)
  fix v assume a: "v \<in> comps_from n [0, 0, 0, 0, 0, 0]"
  note p = comps_from_zero_props[OF a]
  have rt: "map int (map nat v) = v"
    unfolding map_map using p(3) by (intro map_idI) simp
  have "int (sum_list (map nat v)) = int n"
    using p(2) rt by (simp only: int_sum_list)
  then have "map nat v \<in> {l. length l = 6 \<and> sum_list l = n}"
    using p(1) by simp
  then have "map int (map nat v) \<in> map int ` {l. length l = 6 \<and> sum_list l = n}"
    by (rule imageI)
  then show "v \<in> map int ` {l. length l = 6 \<and> sum_list l = n}"
    by (simp only: rt)
next
  fix v assume "v \<in> map int ` {l. length l = 6 \<and> sum_list l = n}"
  then obtain l where l: "length l = 6" "sum_list l = n" "v = map int l" by blast
  then have "v \<in> comps_from n (replicate 6 0)"
    by (simp add: comps_from_def int_sum_list[symmetric] sum_list_replicate)
  then show "v \<in> comps_from n [0, 0, 0, 0, 0, 0]" by (simp only: zeros6)
qed

lemma card_comps_from_zero: "card (comps_from n [0, 0, 0, 0, 0, 0]) = (n + 5) choose 5"
proof -
  have "inj (map int)" by (intro inj_mapI inj_of_nat)
  then have "inj_on (map int) {l. length l = 6 \<and> sum_list l = n}"
    by (rule inj_on_subset) simp
  then have "card (comps_from n [0, 0, 0, 0, 0, 0]) = card {l::nat list. length l = 6 \<and> sum_list l = n}"
    unfolding comps_from_zero by (rule card_image)
  also have "\<dots> = (n + 6 - 1) choose n" by (rule card_length_sum_list)
  also have "\<dots> = (n + 5) choose 5"
    using binomial_symmetric[of n "n + 5"] by (simp add: add.commute)
  finally show ?thesis .
qed

lemma rec_outcomes_zero_keys:
  "set (map fst (rec_outcomes tot n [0, 0, 0, 0, 0, 0] [])) = comps_from n [0, 0, 0, 0, 0, 0]"
  using rec_outcomes_keys[of "[0, 0, 0, 0, 0, 0]" tot n "[]"] by simp

lemma rec_outcomes_zero_distinct: "distinct (map fst (rec_outcomes tot n [0, 0, 0, 0, 0, 0] []))"
proof -
  have "sorted_wrt (<) (map fst (rec_outcomes tot n [0, 0, 0, 0, 0, 0] []))"
    by (rule rec_outcomes_sorted) simp
  then show ?thesis by (simp add: strict_sorted_iff)
qed

lemma length_build_outcomes: "length (build_outcomes n) = (n + 5) choose 5"
proof -
  have "length (build_outcomes n) = length (map fst (rec_outcomes (6 ^ n) n [0, 0, 0, 0, 0, 0] []))"
    by (simp add: build_outcomes_def Let_def)
  also have "\<dots> = card (set (map fst (rec_outcomes (6 ^ n) n [0, 0, 0, 0, 0, 0] [])))"
    by (rule distinct_card[symmetric]) (rule rec_outcomes_zero_distinct)
  also have "\<dots> = (n + 5) choose 5"
    unfolding rec_outcomes_zero_keys by (rule card_comps_from_zero)
  finally show ?thesis .
qed

lemma distinct_build_outcomes: "distinct (map fst (build_outcomes n))"
proof -
  have "map fst (build_outcomes n) = map ((#) 0) (map fst (rec_outcomes (6 ^ n) n [0, 0, 0, 0, 0, 0] []))"
    by (simp add: build_outcomes_def Let_def comp_def)
  moreover have "distinct (map ((#) 0) (map fst (rec_outcomes (6 ^ n) n [0, 0, 0, 0, 0, 0] [])))"
    by (intro iffD2[OF distinct_map] conjI rec_outcomes_zero_distinct inj_onI) simp
  ultimately show ?thesis by simp
qed

lemma choose_6_5: "(6::nat) choose 5 = 6"
  by (simp add: numeral_eq_Suc)

lemma choose_7_5: "(7::nat) choose 5 = 21"
  by (simp add: numeral_eq_Suc)

lemma choose_8_5: "(8::nat) choose 5 = 56"
  by (simp add: numeral_eq_Suc)

lemma choose_9_5: "(9::nat) choose 5 = 126"
  by (simp add: numeral_eq_Suc)

lemma choose_10_5: "(10::nat) choose 5 = 252"
  by (simp add: numeral_eq_Suc)

lemmas choose_5_values = choose_6_5 choose_7_5 choose_8_5 choose_9_5 choose_10_5

lemma length_outcomes_cache:
  "length (outcomes_cache 1) = 6" "length (outcomes_cache 2) = 21"
  "length (outcomes_cache 3) = 56" "length (outcomes_cache 4) = 126"
  "length (outcomes_cache 5) = 252"
  by (simp_all add: outcomes_cache_def length_build_outcomes choose_5_values)

lemma distinct_outcomes_cache: "distinct (map fst (outcomes_cache n))"
  by (simp add: outcomes_cache_def distinct_build_outcomes)


section \<open>The sprint event: the solver\<close>

subsection \<open>Averages, scores and standard deviations\<close>

lemma fold_plus_sum_list:
  fixes a :: "'a::comm_monoid_add"
  shows "fold (\<lambda>v s. s + f v) d a = a + sum_list (map f d)"
  by (induction d arbitrary: a) (simp_all add: add.assoc)

lemma score_set_sum: "score_set d = sum_list (map (\<lambda>v. if v = 6 then - 6 else v) d)"
  by (simp add: score_set_def fold_plus_sum_list)

lemma fold_moments:
  "fold (\<lambda>m acc. \<lparr>ev = ev acc + w * ev m, ev2 = ev2 acc + w * ev2 m\<rparr>) ms a =
     \<lparr>ev = ev a + w * sum_list (map ev ms), ev2 = ev2 a + w * sum_list (map ev2 ms)\<rparr>"
  by (induction ms arbitrary: a) (simp_all add: algebra_simps)

lemma combine_avg_eq:
  "combine_avg ms =
     \<lparr>ev = sum_list (map ev ms) / real (length ms), ev2 = sum_list (map ev2 ms) / real (length ms)\<rparr>"
  by (simp add: combine_avg_def Let_def fold_moments)

lemma sd_nonneg: "0 \<le> sd m"
  by (simp add: sd_def Let_def)

lemma sd_point: "sd \<lparr>ev = t, ev2 = t * t\<rparr> = 0"
  by (simp add: sd_def Let_def)

subsection \<open>The parts of the result\<close>

lemma choose_best_freeze_m: "freeze_m (choose_best fm rm) = fm"
  by (simp add: choose_best_def Let_def split: option.splits)

lemma choose_best_reroll_m: "reroll_m (choose_best fm rm) = rm"
  by (simp add: choose_best_def Let_def split: option.splits)

lemma choose_best_None: "best (choose_best fm None) = fm"
  by (simp add: choose_best_def)

lemma choose_best_Some:
  "best (choose_best fm (Some rm)) =
     (if ev rm > ev fm \<or> (\<bar>ev rm - ev fm\<bar> < ev_tolerance \<and> sd rm < sd fm) then rm else fm)"
  "best_action (choose_best fm (Some rm)) =
     (if ev rm > ev fm \<or> (\<bar>ev rm - ev fm\<bar> < ev_tolerance \<and> sd rm < sd fm)
      then ''reroll'' else ''freeze'')"
  by (auto simp add: choose_best_def Let_def)

text \<open>
  The freeze and reroll moments of a state, read off the body of \<open>solve_state\<close>. The
  entries of \<open>FOUR_OUTS\<close> are sorted, so the \<^verbatim>\<open>sort(r.begin(), r.end())\<close> of the two loops
  leaves them as they are.
\<close>

lemma freeze_m_stage2:
  "stage s = 2 \<Longrightarrow>
   freeze_m (solve_state s) =
     \<lparr>ev = real_of_int (set1_score s + score_set (dice s)),
      ev2 = real_of_int (set1_score s + score_set (dice s))
            * real_of_int (set1_score s + score_set (dice s))\<rparr>"
  by (subst solve_state.simps) (simp add: Let_def choose_best_freeze_m)

lemma freeze_m_stage1:
  "stage s \<noteq> 2 \<Longrightarrow>
   freeze_m (solve_state s) =
     combine_avg (map (\<lambda>r. best (solve_state
        \<lparr>stage = 2, rerolls = rerolls s, dice = r, set1_score = score_set (dice s)\<rparr>)) FOUR_OUTS)"
  by (subst solve_state.simps) (simp add: Let_def choose_best_freeze_m FOUR_OUTS_sorted_entries cong: map_cong)

lemma reroll_m_pos:
  "rerolls s > 0 \<Longrightarrow>
   reroll_m (solve_state s) =
     Some (combine_avg (map (\<lambda>r. best (solve_state
        \<lparr>stage = stage s, rerolls = rerolls s - 1, dice = r, set1_score = set1_score s\<rparr>))
        FOUR_OUTS))"
  by (subst solve_state.simps) (simp add: Let_def choose_best_reroll_m FOUR_OUTS_sorted_entries cong: map_cong)

lemma reroll_m_none: "\<not> rerolls s > 0 \<Longrightarrow> reroll_m (solve_state s) = None"
  by (subst solve_state.simps) (simp add: Let_def choose_best_reroll_m)

lemma solve_state_choose:
  "solve_state s = choose_best (freeze_m (solve_state s)) (reroll_m (solve_state s))"
  by (subst solve_state.simps, subst (2) solve_state.simps, subst (3) solve_state.simps)
     (simp add: Let_def choose_best_freeze_m choose_best_reroll_m)

subsection \<open>Values of stage-2 states with at most one reroll\<close>

lemma best_no_rerolls_stage2:
  "\<not> r > 0 \<Longrightarrow>
   best (solve_state \<lparr>stage = 2, rerolls = r, dice = d, set1_score = s1\<rparr>) =
     \<lparr>ev = real_of_int (s1 + score_set d),
      ev2 = real_of_int (s1 + score_set d) * real_of_int (s1 + score_set d)\<rparr>"
  by (subst solve_state_choose) (simp add: reroll_m_none freeze_m_stage2 choose_best_None)

text \<open>
  Against a point distribution the SD of freezing is 0 and no SD is smaller, so the second
  disjunct of the choice never holds: reroll is taken exactly when its EV is greater.
\<close>

lemma choose_best_point:
  "best (choose_best \<lparr>ev = t, ev2 = t * t\<rparr> (Some rm)) =
     (if ev rm > t then rm else \<lparr>ev = t, ev2 = t * t\<rparr>)"
  "best_action (choose_best \<lparr>ev = t, ev2 = t * t\<rparr> (Some rm)) =
     (if ev rm > t then ''reroll'' else ''freeze'')"
  using sd_nonneg[of rm] by (simp_all add: choose_best_Some sd_point)

lemma reroll_m_stage2_one:
  "reroll_m (solve_state \<lparr>stage = 2, rerolls = 1, dice = d, set1_score = s1\<rparr>) =
     Some \<lparr>ev = real_of_int s1 + 6,
           ev2 = real_of_int s1 * real_of_int s1 + 12 * real_of_int s1 + 2306 / 21\<rparr>"
  by (simp add: reroll_m_pos best_no_rerolls_stage2 combine_avg_eq FOUR_OUTS_eq)
     (simp add: four_outs_list_def score_set_sum algebra_simps)

lemma best_stage2_one:
  "best (solve_state \<lparr>stage = 2, rerolls = 1, dice = d, set1_score = s1\<rparr>) =
     (if 6 > score_set d
      then \<lparr>ev = real_of_int s1 + 6,
            ev2 = real_of_int s1 * real_of_int s1 + 12 * real_of_int s1 + 2306 / 21\<rparr>
      else \<lparr>ev = real_of_int (s1 + score_set d),
            ev2 = real_of_int (s1 + score_set d) * real_of_int (s1 + score_set d)\<rparr>)"
  by (subst solve_state_choose) (simp add: reroll_m_stage2_one freeze_m_stage2 choose_best_point)

lemma best_action_stage2_one:
  "best_action (solve_state \<lparr>stage = 2, rerolls = 1, dice = d, set1_score = s1\<rparr>) =
     (if 6 > score_set d then ''reroll'' else ''freeze'')"
  by (subst solve_state_choose) (simp add: reroll_m_stage2_one freeze_m_stage2 choose_best_point)

subsection \<open>The memo table\<close>

text \<open>
  From a sound table, \<open>solve_state_memo\<close> returns the result of \<open>solve_state\<close> and a sound
  table that has the state and every key of the old table.
\<close>

lemma kids_loop_ok:
  assumes "\<And>r m. r \<in> set xs \<Longrightarrow> memo_ok m \<Longrightarrow> fst (f r m) = g r \<and> memo_ok (snd (f r m))"
    and "memo_ok (snd km)"
  shows "fst (fold (\<lambda>r km. (let cm = f r (snd km) in (fst km @ [best (fst cm)], snd cm))) xs km)
           = fst km @ map (\<lambda>r. best (g r)) xs
         \<and> memo_ok (snd (fold (\<lambda>r km. (let cm = f r (snd km) in (fst km @ [best (fst cm)], snd cm))) xs km))"
  using assms
proof (induction xs arbitrary: km)
  case Nil
  then show ?case by simp
next
  case (Cons x xs)
  let ?km = "(fst km @ [best (fst (f x (snd km)))], snd (f x (snd km)))"
  from Cons.prems(1)[of x "snd km"] Cons.prems(2)
  have x: "fst (f x (snd km)) = g x" "memo_ok (snd (f x (snd km)))" by simp_all
  have "fst (fold (\<lambda>r km. (let cm = f r (snd km) in (fst km @ [best (fst cm)], snd cm))) xs ?km)
           = fst ?km @ map (\<lambda>r. best (g r)) xs
         \<and> memo_ok (snd (fold (\<lambda>r km. (let cm = f r (snd km) in (fst km @ [best (fst cm)], snd cm))) xs ?km))"
    by (rule Cons.IH) (use Cons.prems(1) x in simp_all)
  then show ?case by (simp add: Let_def x)
qed

lemma solve_state_memo_ok:
  "memo_ok memo \<Longrightarrow>
   fst (solve_state_memo s memo) = solve_state s \<and> memo_ok (snd (solve_state_memo s memo))"
proof (induction s memo rule: solve_state_memo.induct)
  case (1 s memo)
  show ?case
  proof (cases "memo s")
    case (Some res)
    with "1.prems" have "res = solve_state s" by (simp add: memo_ok_def)
    with Some "1.prems" show ?thesis by (simp add: solve_state_memo.simps)
  next
    case None
    let ?c2 = "\<lambda>r. \<lparr>stage = 2, rerolls = rerolls s, dice = sort r, set1_score = score_set (dice s)\<rparr>"
    let ?cr = "\<lambda>r. \<lparr>stage = stage s, rerolls = rerolls s - 1, dice = sort r, set1_score = set1_score s\<rparr>"
    let ?loop = "\<lambda>c m0. fold (\<lambda>r km. (let cm = solve_state_memo (c r) (snd km)
                                 in (fst km @ [best (fst cm)], snd cm))) FOUR_OUTS ([], m0)"
    let ?fz = "if stage s = 2 then
                    (let total = set1_score s + score_set (dice s)
                     in (\<lparr>ev = real_of_int total, ev2 = real_of_int total * real_of_int total\<rparr>,
                         memo))
                  else
                    (let s1 = score_set (dice s);
                         km = fold (\<lambda>r km.
                                (let cm = solve_state_memo
                                            \<lparr>stage = 2, rerolls = rerolls s, dice = sort r,
                                             set1_score = s1\<rparr> (snd km)
                                 in (fst km @ [best (fst cm)], snd cm)))
                              FOUR_OUTS ([], memo)
                     in (combine_avg (fst km), snd km))"
    have fz: "fst ?fz = freeze_m (solve_state s) \<and> memo_ok (snd ?fz)"
    proof (cases "stage s = 2")
      case True
      then show ?thesis using "1.prems" by (simp add: Let_def freeze_m_stage2)
    next
      case False
      have "fst (?loop ?c2 memo) = fst ([], memo) @ map (\<lambda>r. best (solve_state (?c2 r))) FOUR_OUTS
            \<and> memo_ok (snd (?loop ?c2 memo))"
      proof (rule kids_loop_ok)
        fix r m assume "r \<in> set FOUR_OUTS" "memo_ok m"
        with "1.IH"(1)[OF None False refl, of r "([], m)"]
        show "fst (solve_state_memo (?c2 r) m) = solve_state (?c2 r)
              \<and> memo_ok (snd (solve_state_memo (?c2 r) m))" by simp
      qed (use "1.prems" in simp)
      moreover have "freeze_m (solve_state s) = combine_avg (map (\<lambda>r. best (solve_state (?c2 r))) FOUR_OUTS)"
        using False by (subst solve_state.simps) (simp add: Let_def choose_best_freeze_m)
      ultimately show ?thesis using False by (simp add: Let_def)
    qed
    let ?rr = "if rerolls s > 0 then
                    (let km = fold (\<lambda>r km.
                                (let cm = solve_state_memo
                                            \<lparr>stage = stage s, rerolls = rerolls s - 1,
                                             dice = sort r, set1_score = set1_score s\<rparr> (snd km)
                                 in (fst km @ [best (fst cm)], snd cm)))
                              FOUR_OUTS ([], snd ?fz)
                     in (Some (combine_avg (fst km)), snd km))
                  else (None, snd ?fz)"
    have rr: "fst ?rr = reroll_m (solve_state s) \<and> memo_ok (snd ?rr)"
    proof (cases "rerolls s > 0")
      case False
      then show ?thesis using fz by (simp add: reroll_m_none)
    next
      case True
      have "fst (?loop ?cr (snd ?fz)) = fst ([], snd ?fz) @ map (\<lambda>r. best (solve_state (?cr r))) FOUR_OUTS
            \<and> memo_ok (snd (?loop ?cr (snd ?fz)))"
      proof (rule kids_loop_ok)
        fix r m assume "r \<in> set FOUR_OUTS" "memo_ok m"
        with "1.IH"(2)[OF None refl True, of r "([], m)"]
        show "fst (solve_state_memo (?cr r) m) = solve_state (?cr r)
              \<and> memo_ok (snd (solve_state_memo (?cr r) m))" by simp
      qed (use fz in simp)
      moreover have "reroll_m (solve_state s) = Some (combine_avg (map (\<lambda>r. best (solve_state (?cr r))) FOUR_OUTS))"
        using True by (subst solve_state.simps) (simp add: Let_def choose_best_reroll_m)
      ultimately show ?thesis using True by (simp add: Let_def)
    qed
    have res: "choose_best (fst ?fz) (fst ?rr) = solve_state s"
      using fz rr solve_state_choose[of s] by simp
    have unf: "solve_state_memo s memo =
        (choose_best (fst ?fz) (fst ?rr),
         if snd ?rr s = None then (snd ?rr)(s \<mapsto> choose_best (fst ?fz) (fst ?rr)) else snd ?rr)"
      by (subst solve_state_memo.simps) (simp add: None Let_def)
    have "memo_ok (if snd ?rr s = None then (snd ?rr)(s \<mapsto> solve_state s) else snd ?rr)"
      using rr by (auto simp: memo_ok_def)
    then show ?thesis unfolding unf res by simp
  qed
qed

lemma kids_loop_dom:
  assumes "\<And>r m. r \<in> set xs \<Longrightarrow> dom m \<subseteq> dom (snd (f r m))"
  shows "dom (snd km)
         \<subseteq> dom (snd (fold (\<lambda>r km. (let cm = f r (snd km) in (fst km @ [best (fst cm)], snd cm))) xs km))"
  using assms
proof (induction xs arbitrary: km)
  case Nil
  then show ?case by simp
next
  case (Cons x xs)
  let ?km = "(fst km @ [best (fst (f x (snd km)))], snd (f x (snd km)))"
  have "dom (snd km) \<subseteq> dom (snd ?km)" using Cons.prems[of x "snd km"] by simp
  also have "\<dots> \<subseteq> dom (snd (fold (\<lambda>r km. (let cm = f r (snd km) in (fst km @ [best (fst cm)], snd cm))) xs ?km))"
    by (rule Cons.IH) (use Cons.prems in simp)
  finally show ?case by (simp add: Let_def)
qed

lemma solve_state_memo_dom:
  "insert s (dom memo) \<subseteq> dom (snd (solve_state_memo s memo))"
proof (induction s memo rule: solve_state_memo.induct)
  case (1 s memo)
  show ?case
  proof (cases "memo s")
    case (Some res)
    then show ?thesis by (auto simp: solve_state_memo.simps)
  next
    case None
    define fz where "fz = (if stage s = 2 then
                    (let total = set1_score s + score_set (dice s)
                     in (\<lparr>ev = real_of_int total, ev2 = real_of_int total * real_of_int total\<rparr>,
                         memo))
                  else
                    (let s1 = score_set (dice s);
                         km = fold (\<lambda>r km.
                                (let cm = solve_state_memo
                                            \<lparr>stage = 2, rerolls = rerolls s, dice = sort r,
                                             set1_score = s1\<rparr> (snd km)
                                 in (fst km @ [best (fst cm)], snd cm)))
                              FOUR_OUTS ([], memo)
                     in (combine_avg (fst km), snd km)))"
    define rr where "rr = (if rerolls s > 0 then
                    (let km = fold (\<lambda>r km.
                                (let cm = solve_state_memo
                                            \<lparr>stage = stage s, rerolls = rerolls s - 1,
                                             dice = sort r, set1_score = set1_score s\<rparr> (snd km)
                                 in (fst km @ [best (fst cm)], snd cm)))
                              FOUR_OUTS ([], snd fz)
                     in (Some (combine_avg (fst km)), snd km))
                  else (None, snd fz))"
    have fz: "dom memo \<subseteq> dom (snd fz)"
    proof (cases "stage s = 2")
      case True
      then show ?thesis by (simp add: fz_def Let_def)
    next
      case False
      have "dom (snd ([] :: Moments list, memo))
            \<subseteq> dom (snd (fold (\<lambda>r km.
                                (let cm = solve_state_memo
                                            \<lparr>stage = 2, rerolls = rerolls s, dice = sort r,
                                             set1_score = score_set (dice s)\<rparr> (snd km)
                                 in (fst km @ [best (fst cm)], snd cm)))
                              FOUR_OUTS ([], memo)))"
      proof (rule kids_loop_dom)
        fix r m assume "r \<in> set FOUR_OUTS"
        with "1.IH"(1)[OF None False refl, of r "([], m)"]
        show "dom m \<subseteq> dom (snd (solve_state_memo
                \<lparr>stage = 2, rerolls = rerolls s, dice = sort r, set1_score = score_set (dice s)\<rparr> m))"
          by simp
      qed
      then show ?thesis using False by (simp add: fz_def Let_def)
    qed
    have rr: "dom (snd fz) \<subseteq> dom (snd rr)"
    proof (cases "rerolls s > 0")
      case False
      then show ?thesis by (simp add: rr_def)
    next
      case True
      have "dom (snd ([] :: Moments list, snd fz))
            \<subseteq> dom (snd (fold (\<lambda>r km.
                                (let cm = solve_state_memo
                                            \<lparr>stage = stage s, rerolls = rerolls s - 1,
                                             dice = sort r, set1_score = set1_score s\<rparr> (snd km)
                                 in (fst km @ [best (fst cm)], snd cm)))
                              FOUR_OUTS ([], snd fz)))"
      proof (rule kids_loop_dom)
        fix r m assume "r \<in> set FOUR_OUTS"
        with "1.IH"(2)[OF None refl True, of r "([], m)"]
        show "dom m \<subseteq> dom (snd (solve_state_memo
                \<lparr>stage = stage s, rerolls = rerolls s - 1, dice = sort r,
                 set1_score = set1_score s\<rparr> m))"
          by (simp add: fz_def)
      qed
      then show ?thesis using True by (simp add: rr_def Let_def)
    qed
    have unf: "solve_state_memo s memo =
        (choose_best (fst fz) (fst rr),
         if snd rr s = None then (snd rr)(s \<mapsto> choose_best (fst fz) (fst rr)) else snd rr)"
      by (subst solve_state_memo.simps) (simp only: None option.case Let_def fz_def rr_def)
    have "insert s (dom (snd rr))
          \<subseteq> dom (if snd rr s = None then (snd rr)(s \<mapsto> choose_best (fst fz) (fst rr)) else snd rr)"
      by auto
    with fz rr show ?thesis unfolding unf snd_conv by blast
  qed
qed

lemma solve_all_ok:
  "memo_ok memo \<Longrightarrow>
   memo_ok (solve_all states memo) \<and> set states \<union> dom memo \<subseteq> dom (solve_all states memo)"
proof (induction states arbitrary: memo)
  case Nil
  then show ?case by (simp add: solve_all_def)
next
  case (Cons s states)
  let ?m = "snd (solve_state_memo s memo)"
  from solve_state_memo_ok[OF Cons.prems, of s] have ok: "memo_ok ?m" by simp
  have e: "solve_all (s # states) memo = solve_all states ?m"
    by (simp add: solve_all_def)
  from Cons.IH[OF ok] have 1: "memo_ok (solve_all states ?m)"
    and 2: "set states \<union> dom ?m \<subseteq> dom (solve_all states ?m)" by simp_all
  have 3: "insert s (dom memo) \<subseteq> dom ?m" by (rule solve_state_memo_dom)
  have "set (s # states) \<union> dom memo \<subseteq> dom (solve_all states ?m)"
    using 2 3 unfolding list.set by blast
  with 1 show ?case unfolding e by blast
qed

lemma memo_ok_empty: "memo_ok Map.empty"
  by (simp add: memo_ok_def)

text \<open>
  The table that \<^verbatim>\<open>main\<close> writes out: it holds a row for every state \<^verbatim>\<open>main\<close> enumerates, and
  every row of it is the result of \<open>solve_state\<close> for its state.
\<close>

lemma main_table:
  "(s \<in> set all_states \<longrightarrow> solve_all all_states Map.empty s = Some (solve_state s))
   \<and> (solve_all all_states Map.empty s = Some res \<longrightarrow> res = solve_state s)"
proof -
  from solve_all_ok[OF memo_ok_empty, of all_states]
  have ok: "memo_ok (solve_all all_states Map.empty)"
    and d: "set all_states \<subseteq> dom (solve_all all_states Map.empty)" by simp_all
  have "solve_all all_states Map.empty s = Some (solve_state s)" if "s \<in> set all_states"
  proof -
    from that d obtain res where r: "solve_all all_states Map.empty s = Some res" by blast
    with ok have "res = solve_state s" unfolding memo_ok_def by blast
    with r show ?thesis by simp
  qed
  moreover have "res = solve_state s" if "solve_all all_states Map.empty s = Some res"
    using ok that unfolding memo_ok_def by blast
  ultimately show ?thesis by blast
qed

section \<open>Claims on scoring, the choice rule, standard deviations and outcome counts\<close>

text \<open>
  Claim C4. For every stage-2 sprint state, the freeze moments are the point distribution of
  the carried set-1 score plus this set's score: the freeze EV is that total and the freeze
  second moment is its square. The set score is the sum of the dice values in which a die
  showing 6 counts as -6, so the dice 6, 6, 5, 5 score -2.
\<close>

theorem C4_stage2_freeze_moments:
  "stage s = 2 \<Longrightarrow>
     freeze_m (solve_state s) =
       \<lparr>ev = real_of_int (set1_score s + score_set (dice s)),
        ev2 = (real_of_int (set1_score s + score_set (dice s)))\<^sup>2\<rparr>
     \<and> score_set (dice s) = sum_list (map (\<lambda>v. if v = 6 then - 6 else v) (dice s))
     \<and> score_set [6, 6, 5, 5] = - 2"
  by (simp add: freeze_m_stage2 power2_eq_square score_set_sum)

theorem C4_stage2_freeze_moments_witness:
  "stage \<lparr>stage = 2, rerolls = 0, dice = [6, 6, 5, 5], set1_score = 3\<rparr> = 2
   \<and> freeze_m (solve_state \<lparr>stage = 2, rerolls = 0, dice = [6, 6, 5, 5], set1_score = 3\<rparr>)
       = \<lparr>ev = 1, ev2 = 1\<rparr>"
  using C4_stage2_freeze_moments[of "\<lparr>stage = 2, rerolls = 0, dice = [6, 6, 5, 5], set1_score = 3\<rparr>"]
  by (simp add: score_set_sum)

text \<open>
  Claim C7. Every standard deviation derived from a pair of moments, in both solvers, is the
  square root of the variance clamped at zero, \<open>sqrt (max 0 (ev2 - ev * ev))\<close>: it is never
  negative, and it is 0 when \<open>ev2 - ev * ev\<close> is negative. (\<open>sd\<close> is the lambda of the sprint
  solver, \<open>attempt_sd_of\<close> the computation at the end of the jump solver's \<^verbatim>\<open>main\<close>. The reals
  have no NaN; that the clamp also keeps a rounded negative variance out of the square root
  is the case \<open>ev2 - ev * ev < 0\<close> here.)
\<close>

theorem C7_sd_clamped:
  "sd m = sqrt (max 0 (ev2 m - ev m * ev m))
   \<and> 0 \<le> sd m
   \<and> sd m = (if ev2 m - ev m * ev m < 0 then 0 else sqrt (ev2 m - ev m * ev m))
   \<and> attempt_sd_of m = sqrt (max 0 (ev2 m - ev m * ev m))
   \<and> 0 \<le> attempt_sd_of m
   \<and> attempt_sd_of m = (if ev2 m - ev m * ev m < 0 then 0 else sqrt (ev2 m - ev m * ev m))
   \<and> attempt_sd = attempt_sd_of (solve_runup_pre 5 0)"
  by (simp add: sd_def attempt_sd_of_def attempt_sd_def Let_def max_def)

text \<open>
  Claim C8. For every dice count n from 1 to 5 the outcome table of the jump solver has exactly
  C(n+5,5) entries, with distinct count arrays: 6, 21, 56, 126 and 252; and the deduplicated
  list of sorted four-dice tuples of the sprint solver has exactly 126 entries, all distinct.
\<close>

theorem C8_outcome_counts:
  "length (outcomes_cache 1) = 6 \<and> length (outcomes_cache 2) = 21
   \<and> length (outcomes_cache 3) = 56 \<and> length (outcomes_cache 4) = 126
   \<and> length (outcomes_cache 5) = 252
   \<and> length (outcomes_cache (int n)) = (if 1 \<le> n \<and> n \<le> 5 then (n + 5) choose 5 else 0)
   \<and> distinct (map fst (outcomes_cache k))
   \<and> length FOUR_OUTS = 126 \<and> distinct FOUR_OUTS"
  by (simp add: length_outcomes_cache distinct_outcomes_cache length_FOUR_OUTS distinct_FOUR_OUTS)
     (simp add: outcomes_cache_def length_build_outcomes)

section \<open>Claims on the averages and the choice of the sprint solver\<close>

text \<open>
  Claim C1 says that the stage-1 freeze fan-out and the reroll moments are the average of the
  child states' best moments weighted by the probability of each canonical outcome, its
  multinomial coefficient over 6^4, so that the outcome 1, 2, 3, 4 weighs 24 times the outcome
  1, 1, 1, 1. The solver averages with \<open>combine_avg\<close>, which gives each of the 126 entries
  of \<open>FOUR_OUTS\<close> the same weight. The values at two states: the reroll moments of the stage-2
  state with 2 rerolls, dice 1, 1, 1, 1 and carried score 0 have EV 593/63 where the weighted
  average of the same children has EV 161/18; the freeze moments of the stage-1 state with 1
  reroll and dice 1, 1, 1, 1 have EV 845/63 where the weighted average has EV 233/18.
\<close>

theorem C1_uniform_average_values:
  "reroll_m (solve_state \<lparr>stage = 2, rerolls = 2, dice = [1, 1, 1, 1], set1_score = 0\<rparr>)
     = Some \<lparr>ev = 593 / 63, ev2 = 58906 / 441\<rparr>
   \<and> spec_weighted_avg
        (\<lambda>r. best (solve_state \<lparr>stage = 2, rerolls = 1, dice = r, set1_score = 0\<rparr>))
     = \<lparr>ev = 161 / 18, ev2 = 430601 / 3402\<rparr>
   \<and> freeze_m (solve_state \<lparr>stage = 1, rerolls = 1, dice = [1, 1, 1, 1], set1_score = 7777\<rparr>)
     = \<lparr>ev = 845 / 63, ev2 = 99170 / 441\<rparr>
   \<and> spec_weighted_avg
        (\<lambda>r. best (solve_state \<lparr>stage = 2, rerolls = 1, dice = r, set1_score = 4\<rparr>))
     = \<lparr>ev = 233 / 18, ev2 = 728465 / 3402\<rparr>
   \<and> outcome_prob [1, 2, 3, 4] = 24 * outcome_prob [1, 1, 1, 1]
   \<and> sum_list (map outcome_prob FOUR_OUTS) = 1"
proof -
  have a: "reroll_m (solve_state \<lparr>stage = 2, rerolls = 2, dice = [1, 1, 1, 1], set1_score = 0\<rparr>)
             = Some \<lparr>ev = 593 / 63, ev2 = 58906 / 441\<rparr>"
    by (simp add: reroll_m_pos best_stage2_one combine_avg_eq FOUR_OUTS_eq)
       (simp add: four_outs_list_def score_set_sum)
  have b: "spec_weighted_avg
             (\<lambda>r. best (solve_state \<lparr>stage = 2, rerolls = 1, dice = r, set1_score = 0\<rparr>))
             = \<lparr>ev = 161 / 18, ev2 = 430601 / 3402\<rparr>"
    by (simp add: spec_weighted_avg_def best_stage2_one FOUR_OUTS_eq)
       (simp add: four_outs_list_def score_set_sum outcome_prob_def multinomial_coeff_def SIDES_def)
  have c: "freeze_m (solve_state \<lparr>stage = 1, rerolls = 1, dice = [1, 1, 1, 1], set1_score = 7777\<rparr>)
             = \<lparr>ev = 845 / 63, ev2 = 99170 / 441\<rparr>"
    by (simp add: freeze_m_stage1 best_stage2_one combine_avg_eq FOUR_OUTS_eq)
       (simp add: four_outs_list_def score_set_sum)
  have d: "spec_weighted_avg
             (\<lambda>r. best (solve_state \<lparr>stage = 2, rerolls = 1, dice = r, set1_score = 4\<rparr>))
             = \<lparr>ev = 233 / 18, ev2 = 728465 / 3402\<rparr>"
    by (simp add: spec_weighted_avg_def best_stage2_one FOUR_OUTS_eq)
       (simp add: four_outs_list_def score_set_sum outcome_prob_def multinomial_coeff_def SIDES_def)
  have e: "outcome_prob [1, 2, 3, 4] = 24 * outcome_prob [1, 1, 1, 1]"
    by (simp add: outcome_prob_def multinomial_coeff_def SIDES_def)
  have f: "sum_list (map outcome_prob FOUR_OUTS) = 1"
    by (simp add: FOUR_OUTS_eq four_outs_list_def outcome_prob_def multinomial_coeff_def SIDES_def)
  from a b c d e f show ?thesis by blast
qed

text \<open>
  The selection of lines 84 to 86 at a state with rerolls remaining, in terms of the moments
  of the two actions.
\<close>

lemma solve_state_selection:
  "rerolls s > 0 \<Longrightarrow>
     (let fm = freeze_m (solve_state s);
          rm = the (reroll_m (solve_state s));
          take_reroll = (ev rm > ev fm \<or> (\<bar>ev rm - ev fm\<bar> < ev_tolerance \<and> sd rm < sd fm))
      in reroll_m (solve_state s) \<noteq> None
         \<and> best_action (solve_state s) = (if take_reroll then ''reroll'' else ''freeze'')
         \<and> best (solve_state s) = (if take_reroll then rm else fm))
     \<and> ev_tolerance = 1 / 10 ^ 12"
proof -
  assume r: "rerolls s > 0"
  from reroll_m_pos[OF r] obtain rm where rm: "reroll_m (solve_state s) = Some rm" by blast
  have "solve_state s = choose_best (freeze_m (solve_state s)) (Some rm)"
    using solve_state_choose[of s] rm by simp
  then have *: "best_action (solve_state s) =
        (if ev rm > ev (freeze_m (solve_state s))
            \<or> (\<bar>ev rm - ev (freeze_m (solve_state s))\<bar> < ev_tolerance
               \<and> sd rm < sd (freeze_m (solve_state s)))
         then ''reroll'' else ''freeze'')"
    and **: "best (solve_state s) =
        (if ev rm > ev (freeze_m (solve_state s))
            \<or> (\<bar>ev rm - ev (freeze_m (solve_state s))\<bar> < ev_tolerance
               \<and> sd rm < sd (freeze_m (solve_state s)))
         then rm else freeze_m (solve_state s))"
    using choose_best_Some[of "freeze_m (solve_state s)" rm] by simp_all
  have main: "(let fm = freeze_m (solve_state s);
          rm = the (reroll_m (solve_state s));
          take_reroll = (ev rm > ev fm \<or> (\<bar>ev rm - ev fm\<bar> < ev_tolerance \<and> sd rm < sd fm))
      in reroll_m (solve_state s) \<noteq> None
         \<and> best_action (solve_state s) = (if take_reroll then ''reroll'' else ''freeze'')
         \<and> best (solve_state s) = (if take_reroll then rm else fm))"
    unfolding Let_def rm option.sel by (intro conjI, simp, rule *, rule **)
  show ?thesis by (rule conjI[OF main ev_tolerance_def])
qed

text \<open>
  Claim C5 says that of freeze and reroll the action with the strictly greater EV is chosen,
  that on an EV tie within the tolerance 1e-12 the action with the strictly lower SD is
  chosen, and that freeze is chosen on a full tie. The stage-2 state with one reroll, dice
  1, 1, 2, 2 and carried score -2 is an EV tie: freezing scores 4 with SD 0, and the moments
  of rerolling are EV 4 and second moment 1886/21, so rerolling has the greater SD. With
  these moments the selection returns freeze, as the claim says. The program computes in
  doubles: there the loop of \<^verbatim>\<open>combine_avg\<close>, with every product and every sum rounded to
  nearest, gives the reroll moments EV 4 + 2^-49 and second moment 98746615713597 / 2^40.
  The EVs are then still within the tolerance and freezing still has the lower SD, and the
  selection returns reroll on these moments: the test \<^verbatim>\<open>reroll_m->ev > freeze_m.ev\<close> comes
  first and has no tolerance.
\<close>

theorem C5_tie_state_rounded_reroll:
  "freeze_m (solve_state \<lparr>stage = 2, rerolls = 1, dice = [1, 1, 2, 2], set1_score = - 2\<rparr>)
     = \<lparr>ev = 4, ev2 = 16\<rparr>
   \<and> reroll_m (solve_state \<lparr>stage = 2, rerolls = 1, dice = [1, 1, 2, 2], set1_score = - 2\<rparr>)
     = Some \<lparr>ev = 4, ev2 = 1886 / 21\<rparr>
   \<and> sd \<lparr>ev = 4, ev2 = 16\<rparr> = 0
   \<and> sd \<lparr>ev = 4, ev2 = 16\<rparr> < sd \<lparr>ev = 4, ev2 = 1886 / 21\<rparr>
   \<and> best_action (solve_state \<lparr>stage = 2, rerolls = 1, dice = [1, 1, 2, 2], set1_score = - 2\<rparr>)
     = ''freeze''
   \<and> \<bar>ev \<lparr>ev = 4 + 1 / 2 ^ 49, ev2 = 98746615713597 / 2 ^ 40\<rparr> - ev \<lparr>ev = 4, ev2 = 16\<rparr>\<bar>
       < ev_tolerance
   \<and> sd \<lparr>ev = 4, ev2 = 16\<rparr> < sd \<lparr>ev = 4 + 1 / 2 ^ 49, ev2 = 98746615713597 / 2 ^ 40\<rparr>
   \<and> best_action (choose_best \<lparr>ev = 4, ev2 = 16\<rparr>
         (Some \<lparr>ev = 4 + 1 / 2 ^ 49, ev2 = 98746615713597 / 2 ^ 40\<rparr>)) = ''reroll''"
proof -
  let ?s = "\<lparr>stage = 2, rerolls = 1, dice = [1, 1, 2, 2], set1_score = - 2\<rparr>"
  have a: "freeze_m (solve_state ?s) = \<lparr>ev = 4, ev2 = 16\<rparr>"
    by (simp add: freeze_m_stage2 score_set_sum)
  have b: "reroll_m (solve_state ?s) = Some \<lparr>ev = 4, ev2 = 1886 / 21\<rparr>"
    by (simp add: reroll_m_stage2_one)
  have c: "sd \<lparr>ev = 4, ev2 = 16\<rparr> = 0"
    by (simp add: sd_def Let_def)
  have d: "sd \<lparr>ev = 4, ev2 = 16\<rparr> < sd \<lparr>ev = 4, ev2 = 1886 / 21\<rparr>"
    by (simp add: sd_def Let_def)
  have e: "best_action (solve_state ?s) = ''freeze''"
    by (simp add: best_action_stage2_one score_set_sum)
  have f: "\<bar>ev \<lparr>ev = 4 + 1 / 2 ^ 49, ev2 = 98746615713597 / 2 ^ 40\<rparr> - ev \<lparr>ev = 4, ev2 = 16\<rparr>\<bar>
             < ev_tolerance"
    by (simp add: ev_tolerance_def)
  have g: "sd \<lparr>ev = 4, ev2 = 16\<rparr> < sd \<lparr>ev = 4 + 1 / 2 ^ 49, ev2 = 98746615713597 / 2 ^ 40\<rparr>"
    by (simp add: sd_def Let_def power2_eq_square algebra_simps)
  have h: "best_action (choose_best \<lparr>ev = 4, ev2 = 16\<rparr>
         (Some \<lparr>ev = 4 + 1 / 2 ^ 49, ev2 = 98746615713597 / 2 ^ 40\<rparr>)) = ''reroll''"
    by (simp add: choose_best_Some)
  from a b c d e f g h show ?thesis by blast
qed
section \<open>The jump event: the run-up\<close>

subsection \<open>The body of \<open>solve_runup_pre\<close> in terms of \<open>runup_choice\<close>\<close>

lemma solve_runup_pre_unfold:
  "solve_runup_pre n_rem s =
     (if s > 8 then \<lparr>ev = 0, ev2 = 0\<rparr>
      else fold (\<lambda>pr acc.
             (let b = runup_choice n_rem s (fst pr)
              in \<lparr>ev = ev acc + snd pr * fst b, ev2 = ev2 acc + snd pr * fst (snd b)\<rparr>))
           (outcomes_cache n_rem) \<lparr>ev = 0, ev2 = 0\<rparr>)"
  by (subst solve_runup_pre.simps) (simp add: runup_choice_def Let_def runup_step_def[abs_def])

lemma runup_choice_start:
  "runup_choice n_rem s cnt =
     fold (runup_step n_rem s cnt) [1..n_rem]
       (ev (runup_stopM n_rem s), ev2 (runup_stopM n_rem s), 0)"
  by (simp add: runup_choice_def runup_stopM_def Let_def)

lemma take_dice_none: "take_dice c faces frozen_sum 0 = frozen_sum"
  by (cases faces) simp_all

lemma runup_step_skip:
  "s + take_dice cnt [1, 2, 3, 4, 5, 6] 0 freeze_count > 8 \<Longrightarrow>
   runup_step n_rem s cnt freeze_count b = b"
  by (simp add: runup_step_def Let_def)

lemma runup_step_cases:
  "runup_step n_rem s cnt fc b = b
   \<or> (\<not> s + take_dice cnt [1, 2, 3, 4, 5, 6] 0 fc > 8
      \<and> runup_step n_rem s cnt fc b =
          (ev (solve_runup_pre (n_rem - fc) (s + take_dice cnt [1, 2, 3, 4, 5, 6] 0 fc)),
           ev2 (solve_runup_pre (n_rem - fc) (s + take_dice cnt [1, 2, 3, 4, 5, 6] 0 fc)),
           fc))"
  by (simp add: runup_step_def Let_def)

lemma runup_step_mono: "fst b \<le> fst (runup_step n_rem s cnt fc b)"
  by (simp add: runup_step_def Let_def)

lemma fold_invariant:
  assumes "P b" and "\<And>x b. x \<in> set xs \<Longrightarrow> P b \<Longrightarrow> P (f x b)"
  shows "P (fold f xs b)"
  using assms by (induction xs arbitrary: b) auto

lemma runup_choice_candidate: "runup_candidate n_rem s cnt (runup_choice n_rem s cnt)"
  unfolding runup_choice_start
proof (rule fold_invariant)
  show "runup_candidate n_rem s cnt (ev (runup_stopM n_rem s), ev2 (runup_stopM n_rem s), 0)"
    by (simp add: runup_candidate_def)
next
  fix fc b
  assume fc: "fc \<in> set [1..n_rem]" and b: "runup_candidate n_rem s cnt b"
  from runup_step_cases[of n_rem s cnt fc b]
  show "runup_candidate n_rem s cnt (runup_step n_rem s cnt fc b)"
  proof
    assume "runup_step n_rem s cnt fc b = b"
    with b show ?thesis by simp
  next
    assume "\<not> s + take_dice cnt [1, 2, 3, 4, 5, 6] 0 fc > 8
      \<and> runup_step n_rem s cnt fc b =
          (ev (solve_runup_pre (n_rem - fc) (s + take_dice cnt [1, 2, 3, 4, 5, 6] 0 fc)),
           ev2 (solve_runup_pre (n_rem - fc) (s + take_dice cnt [1, 2, 3, 4, 5, 6] 0 fc)),
           fc)"
    with fc show ?thesis by (simp add: runup_candidate_def)
  qed
qed

lemma runup_choice_ge_stop: "ev (runup_stopM n_rem s) \<le> fst (runup_choice n_rem s cnt)"
  unfolding runup_choice_start
proof (rule fold_invariant)
  show "ev (runup_stopM n_rem s) \<le> fst (ev (runup_stopM n_rem s), ev2 (runup_stopM n_rem s), 0::int)"
    by simp
next
  fix fc and b :: "real \<times> real \<times> int"
  assume "ev (runup_stopM n_rem s) \<le> fst b"
  with runup_step_mono[of b n_rem s cnt fc]
  show "ev (runup_stopM n_rem s) \<le> fst (runup_step n_rem s cnt fc b)" by linarith
qed

subsection \<open>The calls reachable from \<open>solve_runup_pre 5 0\<close>\<close>

lemma runup_reach_bounds: "runup_reach n_rem s \<Longrightarrow> s \<le> 8 \<and> 0 \<le> n_rem \<and> n_rem \<le> 5"
  by (induction rule: runup_reach.induct) auto

text \<open>
  \<open>runup_reach\<close> is the recursion of the function itself: \<open>solve_runup_pre_rel\<close> is the
  relation between the arguments of a recursive call and those of its caller that the
  definition of \<open>solve_runup_pre\<close> gives rise to.
\<close>

lemma solve_runup_pre_rel_iff:
  "solve_runup_pre_rel (n', s') (n_rem, s) \<longleftrightarrow>
     (\<not> s > 8 \<and> (\<exists>pr fc. pr \<in> set (outcomes_cache n_rem) \<and> fc \<in> set [1..n_rem]
        \<and> n' = n_rem - fc \<and> s' = s + take_dice (fst pr) [1, 2, 3, 4, 5, 6] 0 fc \<and> \<not> s' > 8))"
proof
  assume r: "solve_runup_pre_rel (n', s') (n_rem, s)"
  show "\<not> s > 8 \<and> (\<exists>pr fc. pr \<in> set (outcomes_cache n_rem) \<and> fc \<in> set [1..n_rem]
        \<and> n' = n_rem - fc \<and> s' = s + take_dice (fst pr) [1, 2, 3, 4, 5, 6] 0 fc \<and> \<not> s' > 8)"
    using r
  proof (rule solve_runup_pre_rel.cases)
    fix n0 s0 x xa xb xc xd xe xf xg xh
    assume a: "(n', s') = (n0 - xf, s0 + xh)" "(n_rem, s) = (n0, s0)" "\<not> 8 < s0"
      "xb \<in> set (outcomes_cache n0)" "xd = fst xb" "xf \<in> set [1..n0]"
      "xh = take_dice xd [1, 2, 3, 4, 5, 6] 0 xf" "\<not> 8 < s0 + xh"
    show ?thesis
      by (intro conjI exI[of _ xb] exI[of _ xf]) (use a in simp_all)
  qed
next
  assume "\<not> s > 8 \<and> (\<exists>pr fc. pr \<in> set (outcomes_cache n_rem) \<and> fc \<in> set [1..n_rem]
        \<and> n' = n_rem - fc \<and> s' = s + take_dice (fst pr) [1, 2, 3, 4, 5, 6] 0 fc \<and> \<not> s' > 8)"
  then obtain pr fc where h: "\<not> s > 8" "pr \<in> set (outcomes_cache n_rem)" "fc \<in> set [1..n_rem]"
      "n' = n_rem - fc" "s' = s + take_dice (fst pr) [1, 2, 3, 4, 5, 6] 0 fc"
      "\<not> s + take_dice (fst pr) [1, 2, 3, 4, 5, 6] 0 fc > 8"
    by blast
  from solve_runup_pre_rel.intros[OF h(1) refl refl h(2) refl refl h(3) refl h(6)]
  show "solve_runup_pre_rel (n', s') (n_rem, s)" unfolding h(4) h(5) .
qed

lemma runup_reach_iff_rel:
  "runup_reach n_rem s \<longleftrightarrow> (\<lambda>caller callee. solve_runup_pre_rel callee caller)\<^sup>*\<^sup>* (5, 0) (n_rem, s)"
proof
  assume "runup_reach n_rem s"
  then show "(\<lambda>caller callee. solve_runup_pre_rel callee caller)\<^sup>*\<^sup>* (5, 0) (n_rem, s)"
  proof (induction rule: runup_reach.induct)
    case runup_init
    show ?case by simp
  next
    case (runup_call n_rem s pr freeze_count frozen_sum)
    have "solve_runup_pre_rel (n_rem - freeze_count, s + frozen_sum) (n_rem, s)"
      unfolding solve_runup_pre_rel_iff using runup_call.hyps by blast
    with runup_call.IH show ?case by (simp add: rtranclp.rtrancl_into_rtrancl)
  qed
next
  assume "(\<lambda>caller callee. solve_runup_pre_rel callee caller)\<^sup>*\<^sup>* (5, 0) (n_rem, s)"
  then have "runup_reach (fst (n_rem, s)) (snd (n_rem, s))"
  proof (induction rule: rtranclp_induct)
    case base
    show ?case by (simp add: runup_init)
  next
    case (step y z)
    obtain n0 s0 where y: "y = (n0, s0)" by (cases y)
    obtain n1 s1 where z: "z = (n1, s1)" by (cases z)
    from step.hyps(2) have "solve_runup_pre_rel (n1, s1) (n0, s0)" unfolding y z .
    then obtain pr fc where h: "\<not> s0 > 8" "pr \<in> set (outcomes_cache n0)" "fc \<in> set [1..n0]"
      "n1 = n0 - fc" "s1 = s0 + take_dice (fst pr) [1, 2, 3, 4, 5, 6] 0 fc" "\<not> s1 > 8"
      unfolding solve_runup_pre_rel_iff by blast
    from step.IH have "runup_reach n0 s0" unfolding y by simp
    from runup_call[OF this h(1) h(2) h(3) refl] h(4) h(5) h(6)
    show ?case unfolding z by simp
  qed
  then show "runup_reach n_rem s" by simp
qed

section \<open>The jump event: the jump\<close>

subsection \<open>The entries of the outcome tables\<close>

lemma map_add_at_pos:
  "0 < x \<Longrightarrow> \<forall>kv\<in>set m. 0 < snd kv \<Longrightarrow> \<forall>kv\<in>set (map_add_at k x m). 0 < snd kv"
  by (induction k x m rule: map_add_at.induct) auto

lemma rec_outcomes_pos:
  "0 < tot \<Longrightarrow> \<forall>kv\<in>set m. 0 < snd kv \<Longrightarrow> \<forall>kv\<in>set (rec_outcomes tot left a m). 0 < snd kv"
proof (induction left arbitrary: a m)
  case 0
  show ?case
    unfolding rec_outcomes.simps
    by (rule map_add_at_pos) (use 0 in simp_all)
next
  case (Suc left)
  show ?case
    unfolding rec_outcomes.simps fold_faces
    by (intro Suc.IH Suc.prems)
qed

lemma length_six_cases: "length xs = 6 \<Longrightarrow> \<exists>a b c d e f. xs = [a, b, c, d, e, f]"
  by (auto simp: numeral_eq_Suc length_Suc_conv)

text \<open>
  An entry of \<open>outcomes_cache n\<close> has a positive probability, and its counts are not
  negative and add up to \<open>n\<close>.
\<close>

lemma outcomes_cache_entry:
  assumes "(cnt, p) \<in> set (outcomes_cache n)"
  shows "0 < p \<and> 1 \<le> n \<and> n \<le> 5
         \<and> (\<exists>a b c d e f. cnt = [0, a, b, c, d, e, f] \<and> 0 \<le> a \<and> 0 \<le> b \<and> 0 \<le> c \<and> 0 \<le> d
              \<and> 0 \<le> e \<and> 0 \<le> f \<and> a + b + c + d + e + f = n)"
proof -
  from assms have n: "1 \<le> n" "n \<le> 5"
    by (auto simp: outcomes_cache_def split: if_splits)
  let ?m = "rec_outcomes (6 ^ nat n) (nat n) [0, 0, 0, 0, 0, 0] []"
  from assms n obtain k where k: "(k, p) \<in> set ?m" "cnt = 0 # k"
    by (auto simp: outcomes_cache_def build_outcomes_def Let_def)
  have "\<forall>kv\<in>set ?m. 0 < snd kv"
    by (rule rec_outcomes_pos) simp_all
  with k(1) have p: "0 < p" by fastforce
  from k(1) have "k \<in> set (map fst ?m)" by force
  then have "k \<in> comps_from (nat n) [0, 0, 0, 0, 0, 0]"
    by (simp only: rec_outcomes_zero_keys)
  note c = comps_from_zero_props[OF this]
  from length_six_cases[OF c(1)] obtain a b c' d e f where v: "k = [a, b, c', d, e, f]" by blast
  from c(2,3) n have "0 \<le> a" "0 \<le> b" "0 \<le> c'" "0 \<le> d" "0 \<le> e" "0 \<le> f"
    "a + b + c' + d + e + f = n"
    unfolding v by simp_all
  with p n k(2) v show ?thesis by blast
qed

subsection \<open>The body of \<open>solve_jump_pre\<close> in terms of \<open>jump_choice\<close>\<close>

lemma solve_jump_pre_unfold:
  "solve_jump_pre n_rem =
     (if n_rem = 0 then \<lparr>ev = 0, ev2 = 0\<rparr>
      else fold (\<lambda>pr acc.
             (let b = jump_choice n_rem (fst pr)
              in \<lparr>ev = ev acc + snd pr * fst b, ev2 = ev2 acc + snd pr * fst (snd b)\<rparr>))
           (outcomes_cache n_rem) \<lparr>ev = 0, ev2 = 0\<rparr>)"
  by (subst solve_jump_pre.simps) (simp add: jump_choice_def Let_def jump_step_def[abs_def])

lemma fold_weighted:
  "fold (\<lambda>pr acc. \<lparr>ev = ev acc + f pr, ev2 = ev2 acc + g pr\<rparr>) xs a =
     \<lparr>ev = ev a + sum_list (map f xs), ev2 = ev2 a + sum_list (map g xs)\<rparr>"
  by (induction xs arbitrary: a) (simp_all add: algebra_simps)

lemma ev_solve_jump_pre:
  "n_rem \<noteq> 0 \<Longrightarrow>
   ev (solve_jump_pre n_rem) =
     sum_list (map (\<lambda>pr. snd pr * fst (jump_choice n_rem (fst pr))) (outcomes_cache n_rem))"
  by (subst solve_jump_pre_unfold) (simp add: Let_def fold_weighted)

lemma jump_step_mono: "fst b \<le> fst (jump_step n_rem cnt fc b)"
  by (simp add: jump_step_def Let_def)

lemma fold_jump_step_mono: "fst b \<le> fst (fold (jump_step n_rem cnt) fcs b)"
proof (induction fcs arbitrary: b)
  case Nil
  show ?case by simp
next
  case (Cons fc fcs)
  have "fst b \<le> fst (jump_step n_rem cnt fc b)" by (rule jump_step_mono)
  also have "\<dots> \<le> fst (fold (jump_step n_rem cnt) fcs (jump_step n_rem cnt fc b))"
    by (rule Cons.IH)
  finally show ?case by simp
qed

text \<open>Freezing the largest die of a roll of at least one die freezes at least 1.\<close>

lemma take_dice_largest:
  assumes "0 \<le> a" "0 \<le> b" "0 \<le> c" "0 \<le> d" "0 \<le> e" "0 \<le> f" "1 \<le> a + b + c + d + e + f"
  shows "1 \<le> take_dice [0, a, b, c, d, e, f] [6, 5, 4, 3, 2, 1] 0 1"
  using assms by (simp add: Let_def min_def)

lemma jump_choice_ge_one:
  assumes "(cnt, p) \<in> set (outcomes_cache n)" and "0 \<le> ev (solve_jump_pre (n - 1))"
  shows "1 \<le> fst (jump_choice n cnt)"
proof -
  note e = outcomes_cache_entry[OF assms(1)]
  then obtain a b c d e' f where cnt: "cnt = [0, a, b, c, d, e', f]"
    and nn: "0 \<le> a" "0 \<le> b" "0 \<le> c" "0 \<le> d" "0 \<le> e'" "0 \<le> f" "a + b + c + d + e' + f = n"
    by blast
  from e have n: "1 \<le> n" by simp
  then have up: "[1..n] = 1 # [2..n]" by (simp add: upto.simps)
  have one: "1 \<le> take_dice cnt [6, 5, 4, 3, 2, 1] 0 1"
    unfolding cnt by (rule take_dice_largest) (use nn n in simp_all)
  let ?e = "real_of_int (take_dice cnt [6, 5, 4, 3, 2, 1] 0 1) + ev (solve_jump_pre (n - 1))"
  have e1: "1 \<le> ?e" using one assms(2) by simp
  have "fst (jump_step n cnt 1 (- (10 ^ 100), 0, 1)) = ?e"
    using e1 by (simp add: jump_step_def Let_def)
  moreover have "fst (jump_step n cnt 1 (- (10 ^ 100), 0, 1)) \<le> fst (jump_choice n cnt)"
    unfolding jump_choice_def up by (simp add: fold_jump_step_mono)
  ultimately show ?thesis using e1 by linarith
qed

lemma sum_list_nonneg_real:
  fixes f :: "'a \<Rightarrow> real"
  shows "(\<And>x. x \<in> set xs \<Longrightarrow> 0 \<le> f x) \<Longrightarrow> 0 \<le> sum_list (map f xs)"
  by (induction xs) auto

lemma sum_list_pos_real:
  fixes f :: "'a \<Rightarrow> real"
  assumes "xs \<noteq> []" and pos: "\<And>x. x \<in> set xs \<Longrightarrow> 0 < f x"
  shows "0 < sum_list (map f xs)"
proof -
  from assms(1) obtain a ys where xs: "xs = a # ys" by (cases xs) auto
  have "0 < f a" using pos xs by simp
  moreover have "0 \<le> sum_list (map f ys)"
    by (rule sum_list_nonneg_real) (use pos xs in \<open>simp add: less_imp_le\<close>)
  ultimately show ?thesis unfolding xs by simp
qed

lemma ev_solve_jump_pre_nonneg: "0 \<le> ev (solve_jump_pre n)"
proof (induction "nat n" arbitrary: n rule: less_induct)
  case less
  show ?case
  proof (cases "n = 0")
    case True
    then show ?thesis by (simp add: solve_jump_pre.simps)
  next
    case False
    show ?thesis
      unfolding ev_solve_jump_pre[OF False]
    proof (rule sum_list_nonneg_real)
      fix pr assume pr: "pr \<in> set (outcomes_cache n)"
      then have in': "(fst pr, snd pr) \<in> set (outcomes_cache n)" by simp
      note e = outcomes_cache_entry[OF in']
      then have "nat (n - 1) < nat n" by simp
      then have "0 \<le> ev (solve_jump_pre (n - 1))" by (rule less.hyps)
      from jump_choice_ge_one[OF in' this] e
      show "0 \<le> snd pr * fst (jump_choice n (fst pr))" by simp
    qed
  qed
qed

lemma ev_solve_jump_pre_pos:
  assumes "1 \<le> n" "n \<le> 5"
  shows "0 < ev (solve_jump_pre n)"
proof -
  from assms have n0: "n \<noteq> 0" by simp
  have ne: "outcomes_cache n \<noteq> []"
  proof -
    have "length (outcomes_cache n) = (nat n + 5) choose 5"
      using assms by (simp add: outcomes_cache_def length_build_outcomes)
    moreover have "0 < (nat n + 5) choose 5" by (simp add: zero_less_binomial_iff)
    ultimately show ?thesis by auto
  qed
  show ?thesis
    unfolding ev_solve_jump_pre[OF n0]
  proof (rule sum_list_pos_real[OF ne])
    fix pr assume "pr \<in> set (outcomes_cache n)"
    then have in': "(fst pr, snd pr) \<in> set (outcomes_cache n)" by simp
    note e = outcomes_cache_entry[OF in']
    from jump_choice_ge_one[OF in' ev_solve_jump_pre_nonneg] e
    show "0 < snd pr * fst (jump_choice n (fst pr))" by simp
  qed
qed

section \<open>The jump event: the frozen sum and the moments of the run-up\<close>

subsection \<open>The moments of a run-up state as sums over the outcomes\<close>

lemma ev_solve_runup_pre:
  "ev (solve_runup_pre n_rem s) =
     (if s > 8 then 0
      else sum_list (map (\<lambda>pr. snd pr * fst (runup_choice n_rem s (fst pr)))
                      (outcomes_cache n_rem)))"
  by (subst solve_runup_pre_unfold) (simp add: Let_def fold_weighted)

lemma ev2_solve_runup_pre:
  "ev2 (solve_runup_pre n_rem s) =
     (if s > 8 then 0
      else sum_list (map (\<lambda>pr. snd pr * fst (snd (runup_choice n_rem s (fst pr))))
                      (outcomes_cache n_rem)))"
  by (subst solve_runup_pre_unfold) (simp add: Let_def fold_weighted)

subsection \<open>The ceiling as a parameter\<close>

text \<open>
  At the ceiling 8 the solver with the ceiling as a parameter is \<open>solve_runup_pre\<close>; and
  moving the ceiling and the frozen sum by the same amount changes no moment.
\<close>

lemma solve_runup_ceiling_8: "solve_runup_ceiling 8 n_rem s = solve_runup_pre n_rem s"
proof (induction "nat n_rem" arbitrary: n_rem s rule: less_induct)
  case less
  have IH: "solve_runup_ceiling 8 (n_rem - fc) x = solve_runup_pre (n_rem - fc) x"
    if "fc \<in> set [1..n_rem]" for fc x
    by (rule less) (use that in auto)
  have body: "fold (\<lambda>freeze_count b.
                 if s + take_dice cnt [1, 2, 3, 4, 5, 6] 0 freeze_count > 8 then b
                 else if ev (solve_runup_ceiling 8 (n_rem - freeze_count)
                              (s + take_dice cnt [1, 2, 3, 4, 5, 6] 0 freeze_count)) > fst b
                      then (ev (solve_runup_ceiling 8 (n_rem - freeze_count)
                                 (s + take_dice cnt [1, 2, 3, 4, 5, 6] 0 freeze_count)),
                            ev2 (solve_runup_ceiling 8 (n_rem - freeze_count)
                                  (s + take_dice cnt [1, 2, 3, 4, 5, 6] 0 freeze_count)),
                            freeze_count)
                      else b) [1..n_rem] b0
              = fold (\<lambda>freeze_count b.
                 if s + take_dice cnt [1, 2, 3, 4, 5, 6] 0 freeze_count > 8 then b
                 else if ev (solve_runup_pre (n_rem - freeze_count)
                              (s + take_dice cnt [1, 2, 3, 4, 5, 6] 0 freeze_count)) > fst b
                      then (ev (solve_runup_pre (n_rem - freeze_count)
                                 (s + take_dice cnt [1, 2, 3, 4, 5, 6] 0 freeze_count)),
                            ev2 (solve_runup_pre (n_rem - freeze_count)
                                  (s + take_dice cnt [1, 2, 3, 4, 5, 6] 0 freeze_count)),
                            freeze_count)
                      else b) [1..n_rem] b0" for cnt b0
    by (rule fold_cong[OF refl refl]) (simp only: IH)
  show ?case
    by (subst solve_runup_ceiling.simps, subst solve_runup_pre.simps) (simp only: Let_def body)
qed

lemma solve_runup_ceiling_shift:
  "solve_runup_ceiling (c + d) n_rem (s + d) = solve_runup_ceiling c n_rem s"
proof (induction "nat n_rem" arbitrary: n_rem s rule: less_induct)
  case less
  have IH: "solve_runup_ceiling (c + d) (n_rem - fc) (s + d + t)
              = solve_runup_ceiling c (n_rem - fc) (s + t)"
    if "fc \<in> set [1..n_rem]" for fc t
  proof -
    have e: "s + d + t = (s + t) + d" by simp
    show ?thesis unfolding e by (rule less) (use that in auto)
  qed
  have body: "fold (\<lambda>freeze_count b.
                 if s + d + take_dice cnt [1, 2, 3, 4, 5, 6] 0 freeze_count > c + d then b
                 else if ev (solve_runup_ceiling (c + d) (n_rem - freeze_count)
                              (s + d + take_dice cnt [1, 2, 3, 4, 5, 6] 0 freeze_count)) > fst b
                      then (ev (solve_runup_ceiling (c + d) (n_rem - freeze_count)
                                 (s + d + take_dice cnt [1, 2, 3, 4, 5, 6] 0 freeze_count)),
                            ev2 (solve_runup_ceiling (c + d) (n_rem - freeze_count)
                                  (s + d + take_dice cnt [1, 2, 3, 4, 5, 6] 0 freeze_count)),
                            freeze_count)
                      else b) [1..n_rem] b0
              = fold (\<lambda>freeze_count b.
                 if s + take_dice cnt [1, 2, 3, 4, 5, 6] 0 freeze_count > c then b
                 else if ev (solve_runup_ceiling c (n_rem - freeze_count)
                              (s + take_dice cnt [1, 2, 3, 4, 5, 6] 0 freeze_count)) > fst b
                      then (ev (solve_runup_ceiling c (n_rem - freeze_count)
                                 (s + take_dice cnt [1, 2, 3, 4, 5, 6] 0 freeze_count)),
                            ev2 (solve_runup_ceiling c (n_rem - freeze_count)
                                  (s + take_dice cnt [1, 2, 3, 4, 5, 6] 0 freeze_count)),
                            freeze_count)
                      else b) [1..n_rem] b0" for cnt b0
  proof (rule fold_cong[OF refl refl])
    fix fc assume fc: "fc \<in> set [1..n_rem]"
    have g: "(s + d + take_dice cnt [1, 2, 3, 4, 5, 6] 0 fc > c + d)
             = (s + take_dice cnt [1, 2, 3, 4, 5, 6] 0 fc > c)" by simp
    show "(\<lambda>b. if s + d + take_dice cnt [1, 2, 3, 4, 5, 6] 0 fc > c + d then b
                 else if ev (solve_runup_ceiling (c + d) (n_rem - fc)
                              (s + d + take_dice cnt [1, 2, 3, 4, 5, 6] 0 fc)) > fst b
                      then (ev (solve_runup_ceiling (c + d) (n_rem - fc)
                                 (s + d + take_dice cnt [1, 2, 3, 4, 5, 6] 0 fc)),
                            ev2 (solve_runup_ceiling (c + d) (n_rem - fc)
                                  (s + d + take_dice cnt [1, 2, 3, 4, 5, 6] 0 fc)),
                            fc)
                      else b)
          = (\<lambda>b. if s + take_dice cnt [1, 2, 3, 4, 5, 6] 0 fc > c then b
                 else if ev (solve_runup_ceiling c (n_rem - fc)
                              (s + take_dice cnt [1, 2, 3, 4, 5, 6] 0 fc)) > fst b
                      then (ev (solve_runup_ceiling c (n_rem - fc)
                                 (s + take_dice cnt [1, 2, 3, 4, 5, 6] 0 fc)),
                            ev2 (solve_runup_ceiling c (n_rem - fc)
                                  (s + take_dice cnt [1, 2, 3, 4, 5, 6] 0 fc)),
                            fc)
                      else b)"
      by (simp only: IH[OF fc] g)
  qed
  have guard: "(s + d > c + d) = (s > c)" by simp
  show ?case
    by (subst solve_runup_ceiling.simps, subst (2) solve_runup_ceiling.simps)
       (simp only: Let_def body guard)
qed
section \<open>Claims on the run-up of the jump solver\<close>

text \<open>
  Claim C2, as amended. For every run-up state the stop action (freeze count 0) is always
  available: the search over the freeze counts of every outcome starts from the stop
  moments with freeze count 0 and never ends with a smaller EV, and when it ends with
  freeze count 0 it ends with the stop moments. The stop moments are the jump-phase value of
  the \<open>5 - n_rem\<close> dice already frozen in the run-up, \<open>solve_jump_pre (5 - n_rem)\<close>; the dice
  still remaining in the run-up are not transferred.
\<close>

theorem C2_stop_action:
  "runup_choice n_rem s cnt =
     fold (runup_step n_rem s cnt) [1..n_rem]
       (ev (runup_stopM n_rem s), ev2 (runup_stopM n_rem s), 0)
   \<and> runup_stopM n_rem s = solve_jump_pre (5 - n_rem)
   \<and> ev (runup_stopM n_rem s) \<le> fst (runup_choice n_rem s cnt)
   \<and> (snd (snd (runup_choice n_rem s cnt)) = 0 \<longrightarrow>
        runup_choice n_rem s cnt
          = (ev (solve_jump_pre (5 - n_rem)), ev2 (solve_jump_pre (5 - n_rem)), 0))"
proof -
  have st: "runup_stopM n_rem s = solve_jump_pre (5 - n_rem)"
    by (simp add: runup_stopM_def)
  have "snd (snd (runup_choice n_rem s cnt)) = 0 \<longrightarrow>
        runup_choice n_rem s cnt
          = (ev (solve_jump_pre (5 - n_rem)), ev2 (solve_jump_pre (5 - n_rem)), 0)"
    using runup_choice_candidate[of n_rem s cnt]
    unfolding runup_candidate_def st by auto
  with st runup_choice_start[of n_rem s cnt] runup_choice_ge_stop[of n_rem s cnt]
  show ?thesis by blast
qed

lemma runup_choice_at_ceiling:
  "runup_choice 4 8 [0, 4, 0, 0, 0, 0, 0] = (ev (solve_jump_pre 1), ev2 (solve_jump_pre 1), 0)"
  by (simp add: runup_choice_start runup_stopM_def runup_step_def Let_def upto.simps)

theorem C2_stop_action_witness:
  "snd (snd (runup_choice 4 8 [0, 4, 0, 0, 0, 0, 0])) = 0
   \<and> runup_choice 4 8 [0, 4, 0, 0, 0, 0, 0] = (ev (solve_jump_pre 1), ev2 (solve_jump_pre 1), 0)
   \<and> ev (runup_stopM 4 8) \<le> fst (runup_choice 4 8 [0, 4, 0, 0, 0, 0, 0])"
proof -
  have z: "snd (snd (runup_choice 4 8 [0, 4, 0, 0, 0, 0, 0])) = 0"
    by (simp only: runup_choice_at_ceiling snd_conv)
  from C2_stop_action[of 4 8 "[0, 4, 0, 0, 0, 0, 0]"] z
  have "runup_choice 4 8 [0, 4, 0, 0, 0, 0, 0]
          = (ev (solve_jump_pre (5 - 4)), ev2 (solve_jump_pre (5 - 4)), 0)"
    and "ev (runup_stopM 4 8) \<le> fst (runup_choice 4 8 [0, 4, 0, 0, 0, 0, 0])"
    by blast+
  with z show ?thesis by simp
qed

text \<open>
  The claim as stated fails at the first run-up state: all five dice remain and none is
  frozen, and the stop moments are those of a jump with no dice, EV 0, while the jump-phase
  value of the five remaining dice has a positive EV.
\<close>

theorem C2_counterexample:
  "runup_reach 5 0
   \<and> runup_stopM 5 0 = \<lparr>ev = 0, ev2 = 0\<rparr>
   \<and> 0 < ev (solve_jump_pre 5)
   \<and> runup_stopM 5 0 \<noteq> solve_jump_pre 5"
proof -
  have a: "runup_stopM 5 0 = \<lparr>ev = 0, ev2 = 0\<rparr>"
    by (simp add: runup_stopM_def solve_jump_pre.simps)
  have b: "0 < ev (solve_jump_pre 5)"
    by (rule ev_solve_jump_pre_pos) simp_all
  have "runup_stopM 5 0 \<noteq> solve_jump_pre 5"
  proof
    assume "runup_stopM 5 0 = solve_jump_pre 5"
    with a have "ev (solve_jump_pre 5) = ev \<lparr>ev = 0, ev2 = 0\<rparr>" by simp
    with b show False by simp
  qed
  with a b runup_init show ?thesis by blast
qed

text \<open>
  Claim C3. In the run-up, at every state reachable from the initial call, a freeze count
  whose frozen sum would exceed 8 is passed over: the step of the search leaves the best
  triple as it is, whatever the triple. So the freeze count recorded for an outcome never
  gives a frozen sum over 8 (freeze count 0, stopping, leaves the sum as it is).
\<close>

theorem C3_runup_ceiling:
  "runup_reach n_rem s \<Longrightarrow>
     (s + take_dice cnt [1, 2, 3, 4, 5, 6] 0 fc > 8 \<longrightarrow> runup_step n_rem s cnt fc b = b)
     \<and> s + take_dice cnt [1, 2, 3, 4, 5, 6] 0 (snd (snd (runup_choice n_rem s cnt))) \<le> 8"
proof -
  assume "runup_reach n_rem s"
  then have s: "s \<le> 8" using runup_reach_bounds by blast
  have "s + take_dice cnt [1, 2, 3, 4, 5, 6] 0 (snd (snd (runup_choice n_rem s cnt))) \<le> 8"
    using runup_choice_candidate[of n_rem s cnt] s
    unfolding runup_candidate_def by (auto simp: take_dice_none)
  then show ?thesis using runup_step_skip by blast
qed

theorem C3_runup_ceiling_witness:
  "runup_reach 5 0
   \<and> 0 + take_dice [0, 0, 0, 0, 0, 0, 5] [1, 2, 3, 4, 5, 6] 0 2 > 8
   \<and> runup_step 5 0 [0, 0, 0, 0, 0, 0, 5] 2 (0, 0, 0) = (0, 0, 0)
   \<and> 0 + take_dice [0, 0, 0, 0, 0, 0, 5] [1, 2, 3, 4, 5, 6] 0
            (snd (snd (runup_choice 5 0 [0, 0, 0, 0, 0, 0, 5]))) \<le> 8"
proof -
  have gt: "0 + take_dice [0, 0, 0, 0, 0, 0, 5] [1, 2, 3, 4, 5, 6] 0 2 > 8"
    by (simp add: Let_def)
  from C3_runup_ceiling[OF runup_init, of "[0, 0, 0, 0, 0, 0, 5]" 2 "(0, 0, 0)"] gt runup_init
  show ?thesis by blast
qed

text \<open>
  Claim C9. Every call of \<open>solve_runup_pre\<close> reachable from the initial call
  \<open>solve_runup_pre 5 0\<close> through the recursion of the function has a frozen sum of at most 8
  (and between 0 and 5 dice), so the guard that returns zero moments when the sum is over 8
  never fires.
\<close>

theorem C9_runup_guard_unreachable:
  "(\<lambda>caller callee. solve_runup_pre_rel callee caller)\<^sup>*\<^sup>* (5, 0) (n_rem, s) \<Longrightarrow>
     runup_reach n_rem s \<and> s \<le> 8 \<and> \<not> s > 8 \<and> 0 \<le> n_rem \<and> n_rem \<le> 5"
proof -
  assume "(\<lambda>caller callee. solve_runup_pre_rel callee caller)\<^sup>*\<^sup>* (5, 0) (n_rem, s)"
  then have r: "runup_reach n_rem s" by (simp only: runup_reach_iff_rel)
  with runup_reach_bounds[OF r] show ?thesis by simp
qed

lemma outcomes_cache_five_ones: "\<exists>p. ([0, 5, 0, 0, 0, 0, 0], p) \<in> set (outcomes_cache 5)"
proof -
  let ?m = "rec_outcomes (6 ^ 5) 5 [0, 0, 0, 0, 0, 0] []"
  have "[5, 0, 0, 0, 0, 0] \<in> comps_from 5 [0, 0, 0, 0, 0, 0]"
    by (simp add: comps_from_def nth_Cons' )
  then have "[5, 0, 0, 0, 0, 0] \<in> set (map fst ?m)"
    by (simp only: rec_outcomes_zero_keys)
  then obtain p where "([5, 0, 0, 0, 0, 0], p) \<in> set ?m" by auto
  then have "([0, 5, 0, 0, 0, 0, 0], p) \<in> (\<lambda>kv. (0 # fst kv, snd kv)) ` set ?m"
    by (rule image_eqI[rotated]) simp
  then have "([0, 5, 0, 0, 0, 0, 0], p) \<in> set (build_outcomes 5)"
    by (simp add: build_outcomes_def Let_def)
  then show ?thesis by (auto simp: outcomes_cache_def)
qed

lemma runup_first_call: "solve_runup_pre_rel (4, 1) (5, 0)"
proof -
  from outcomes_cache_five_ones obtain p
    where p: "([0, 5, 0, 0, 0, 0, 0], p) \<in> set (outcomes_cache 5)" by blast
  have fc: "(1::int) \<in> set [1..5]" by simp
  have t: "take_dice (fst ([0, 5, 0, 0, 0, 0, 0], p)) [1, 2, 3, 4, 5, 6] 0 1 = 1"
    by (simp add: Let_def)
  show ?thesis
    unfolding solve_runup_pre_rel_iff
    by (intro conjI exI[of _ "([0, 5, 0, 0, 0, 0, 0], p)"] exI[of _ 1]) (use p t in simp_all)
qed

theorem C9_runup_guard_unreachable_witness:
  "(\<lambda>caller callee. solve_runup_pre_rel callee caller)\<^sup>*\<^sup>* (5, 0) (4, 1)
   \<and> runup_reach 4 1 \<and> (1::int) \<le> 8"
proof -
  have "(\<lambda>caller callee. solve_runup_pre_rel callee caller)\<^sup>*\<^sup>* (5, 0) (4, 1)"
    using runup_first_call by (simp add: r_into_rtranclp)
  with C9_runup_guard_unreachable[of 4 1] show ?thesis by simp
qed

text \<open>
  Claim C10. The jump-phase value depends on the number of dice handed to the jump only:
  two run-up states with the same number of remaining dice have the same stop moments,
  \<open>solve_jump_pre (5 - n_rem)\<close>, whatever their frozen sums. The frozen sum is no part of
  the expected score. The moments of a run-up state within the ceiling are the sums, over
  the outcomes, of the probability times the moments the outcome ends with, and these are
  the stop moments or, unchanged, the moments of the run-up state that a freeze count within
  the ceiling leads to (\<open>runup_candidate\<close>); the sum only decides which freeze counts are
  passed over. So the sum acts through its distance to the ceiling only: run with the
  ceiling \<open>8 + d\<close> from the frozen sum \<open>s + d\<close>, the solver returns the moments of
  \<open>solve_runup_pre n_rem s\<close>, for every \<open>d\<close>; in particular the EV of the attempt,
  \<open>attempt_ev\<close>, is the EV found from any first frozen sum \<open>d\<close> with the ceiling \<open>8 + d\<close>.
\<close>

theorem C10_frozen_sum_never_scored:
  "runup_stopM n_rem s1 = runup_stopM n_rem s2
   \<and> runup_stopM n_rem s1 = solve_jump_pre (5 - n_rem)
   \<and> runup_candidate n_rem s cnt (runup_choice n_rem s cnt)
   \<and> ev (solve_runup_pre n_rem s) =
       (if s > 8 then 0
        else sum_list (map (\<lambda>pr. snd pr * fst (runup_choice n_rem s (fst pr)))
                        (outcomes_cache n_rem)))
   \<and> ev2 (solve_runup_pre n_rem s) =
       (if s > 8 then 0
        else sum_list (map (\<lambda>pr. snd pr * fst (snd (runup_choice n_rem s (fst pr))))
                        (outcomes_cache n_rem)))
   \<and> solve_runup_ceiling 8 n_rem s = solve_runup_pre n_rem s
   \<and> solve_runup_ceiling (8 + d) n_rem (s + d) = solve_runup_pre n_rem s
   \<and> attempt_ev = ev (solve_runup_ceiling (8 + d) 5 d)"
proof -
  have a: "runup_stopM n_rem s1 = runup_stopM n_rem s2"
    and b: "runup_stopM n_rem s1 = solve_jump_pre (5 - n_rem)"
    by (simp_all add: runup_stopM_def)
  have shift: "solve_runup_ceiling (8 + d) n (x + d) = solve_runup_pre n x" for n x
    by (simp only: solve_runup_ceiling_shift solve_runup_ceiling_8)
  have "solve_runup_ceiling (8 + d) 5 (0 + d) = solve_runup_pre 5 0"
    by (rule shift)
  then have c: "attempt_ev = ev (solve_runup_ceiling (8 + d) 5 d)"
    by (simp add: attempt_ev_def)
  from a b c runup_choice_candidate[of n_rem s cnt] ev_solve_runup_pre[of n_rem s]
    ev2_solve_runup_pre[of n_rem s] solve_runup_ceiling_8[of n_rem s] shift[of n_rem s]
  show ?thesis by blast
qed

theorem C10_frozen_sum_never_scored_witness:
  "runup_stopM 4 1 = runup_stopM 4 6
   \<and> runup_stopM 4 1 = solve_jump_pre 1
   \<and> solve_runup_ceiling 108 4 101 = solve_runup_pre 4 1
   \<and> attempt_ev = ev (solve_runup_ceiling 108 5 100)"
proof -
  from C10_frozen_sum_never_scored[of 4 1 6 1 "[0, 4, 0, 0, 0, 0, 0]" 100]
  have "runup_stopM 4 1 = runup_stopM 4 6"
    and "runup_stopM 4 1 = solve_jump_pre (5 - 4)"
    and "solve_runup_ceiling (8 + 100) 4 (1 + 100) = solve_runup_pre 4 1"
    and "attempt_ev = ev (solve_runup_ceiling (8 + 100) 5 100)"
    by blast+
  then show ?thesis by simp
qed
section \<open>The sprint event: more rerolls are never worse\<close>

subsection \<open>Averages over the outcome list\<close>

lemma avg_best_ev_sum:
  "avg_best_ev st r s1 = sum_list (map (\<lambda>d. best_ev st r d s1) FOUR_OUTS) / 126"
  by (simp add: avg_best_ev_def best_ev_def combine_avg_eq length_FOUR_OUTS comp_def)

lemma sum_list_mono_real:
  fixes f g :: "'a \<Rightarrow> real"
  shows "(\<And>x. x \<in> set xs \<Longrightarrow> f x \<le> g x) \<Longrightarrow> sum_list (map f xs) \<le> sum_list (map g xs)"
  by (induction xs) (auto intro: add_mono)

lemma sum_list_gap_real:
  fixes f g :: "'a \<Rightarrow> real"
  assumes "\<And>x. x \<in> set xs \<Longrightarrow> f x \<le> g x" and "y \<in> set xs"
  shows "g y - f y \<le> sum_list (map g xs) - sum_list (map f xs)"
  using assms
proof (induction xs)
  case Nil
  then show ?case by simp
next
  case (Cons x xs)
  have le: "sum_list (map f xs) \<le> sum_list (map g xs)"
    by (rule sum_list_mono_real) (use Cons.prems(1) in simp)
  have x: "f x \<le> g x" using Cons.prems(1) by simp
  show ?case
  proof (cases "y = x")
    case True
    with le show ?thesis by simp
  next
    case False
    with Cons.prems(2) have "y \<in> set xs" by simp
    from Cons.IH[OF _ this] Cons.prems(1)
    have "g y - f y \<le> sum_list (map g xs) - sum_list (map f xs)" by simp
    with x show ?thesis by simp
  qed
qed

lemma avg_best_ev_mono:
  assumes "\<And>d. best_ev st r d s1 \<le> best_ev st' r' d s1'"
  shows "avg_best_ev st r s1 \<le> avg_best_ev st' r' s1'"
  unfolding avg_best_ev_sum
  by (intro divide_right_mono sum_list_mono_real assms) simp

lemma avg_best_ev_gap:
  assumes "\<And>d. best_ev st r d s1 \<le> best_ev st' r' d s1'" and "y \<in> set FOUR_OUTS"
  shows "(best_ev st' r' y s1' - best_ev st r y s1) / 126
           \<le> avg_best_ev st' r' s1' - avg_best_ev st r s1"
proof -
  have "best_ev st' r' y s1' - best_ev st r y s1
          \<le> sum_list (map (\<lambda>d. best_ev st' r' d s1') FOUR_OUTS)
            - sum_list (map (\<lambda>d. best_ev st r d s1) FOUR_OUTS)"
    by (rule sum_list_gap_real) (use assms in simp_all)
  then show ?thesis
    unfolding avg_best_ev_sum by (simp add: diff_divide_distrib[symmetric] divide_right_mono)
qed

subsection \<open>The EVs of a state\<close>

lemma state_fields: "\<lparr>stage = stage s, rerolls = rerolls s, dice = dice s, set1_score = set1_score s\<rparr> = (s::State)"
  by simp

lemma freeze_ev_stage1:
  "st \<noteq> 2 \<Longrightarrow>
   ev (freeze_m (solve_state \<lparr>stage = st, rerolls = r, dice = d, set1_score = s1\<rparr>))
     = avg_best_ev 2 r (score_set d)"
  by (simp add: freeze_m_stage1 avg_best_ev_def)

lemma reroll_ev:
  "r > 0 \<Longrightarrow>
   reroll_m (solve_state \<lparr>stage = st, rerolls = r, dice = d, set1_score = s1\<rparr>)
     = Some (combine_avg (map (\<lambda>d'. best (solve_state
          \<lparr>stage = st, rerolls = r - 1, dice = d', set1_score = s1\<rparr>)) FOUR_OUTS))"
  by (simp add: reroll_m_pos)

lemma best_ev_no_rerolls:
  "\<not> r > 0 \<Longrightarrow>
   best_ev st r d s1 = ev (freeze_m (solve_state \<lparr>stage = st, rerolls = r, dice = d, set1_score = s1\<rparr>))"
  unfolding best_ev_def
  by (subst solve_state_choose) (simp add: reroll_m_none choose_best_None)

text \<open>
  With rerolls left, the best EV is at least the EV of rerolling, more than the EV of
  freezing less the tolerance, and at most the greater of the two.
\<close>

lemma ev_tolerance_pos: "0 < ev_tolerance"
  by (simp add: ev_tolerance_def)

lemma choose_best_bounds:
  "ev rm \<le> ev (best (choose_best fm (Some rm)))"
  "ev fm - ev_tolerance \<le> ev (best (choose_best fm (Some rm)))"
  "ev (best (choose_best fm (Some rm))) \<le> max (ev fm) (ev rm)"
  using ev_tolerance_pos by (auto simp add: choose_best_Some)

lemma best_ev_rerolls:
  assumes "r > 0"
  shows "avg_best_ev st (r - 1) s1 \<le> best_ev st r d s1"
    and "ev (freeze_m (solve_state \<lparr>stage = st, rerolls = r, dice = d, set1_score = s1\<rparr>))
           - ev_tolerance \<le> best_ev st r d s1"
    and "best_ev st r d s1
           \<le> max (ev (freeze_m (solve_state \<lparr>stage = st, rerolls = r, dice = d, set1_score = s1\<rparr>)))
                 (avg_best_ev st (r - 1) s1)"
proof -
  let ?s = "\<lparr>stage = st, rerolls = r, dice = d, set1_score = s1\<rparr>"
  let ?rm = "combine_avg (map (\<lambda>d'. best (solve_state
          \<lparr>stage = st, rerolls = r - 1, dice = d', set1_score = s1\<rparr>)) FOUR_OUTS)"
  have rm: "reroll_m (solve_state ?s) = Some ?rm" by (rule reroll_ev[OF assms])
  have b: "best (solve_state ?s) = best (choose_best (freeze_m (solve_state ?s)) (Some ?rm))"
    using solve_state_choose[of ?s] rm by simp
  have e: "ev ?rm = avg_best_ev st (r - 1) s1" by (simp add: avg_best_ev_def)
  show "avg_best_ev st (r - 1) s1 \<le> best_ev st r d s1"
    unfolding best_ev_def b e[symmetric] by (rule choose_best_bounds)
  show "ev (freeze_m (solve_state ?s)) - ev_tolerance \<le> best_ev st r d s1"
    unfolding best_ev_def b by (rule choose_best_bounds)
  show "best_ev st r d s1 \<le> max (ev (freeze_m (solve_state ?s))) (avg_best_ev st (r - 1) s1)"
    unfolding best_ev_def b e[symmetric] by (rule choose_best_bounds)
qed

subsection \<open>Stage 2\<close>

text \<open>At stage 2 the best EV is the total, or the greater of the total and the reroll EV.\<close>

lemma best_ev_stage2:
  "best_ev 2 r d s1 =
     (if r > 0 then max (real_of_int (s1 + score_set d)) (avg_best_ev 2 (r - 1) s1)
      else real_of_int (s1 + score_set d))"
proof (cases "r > 0")
  case False
  then show ?thesis by (simp add: best_ev_no_rerolls freeze_m_stage2)
next
  case True
  let ?s = "\<lparr>stage = 2, rerolls = r, dice = d, set1_score = s1\<rparr>"
  let ?rm = "combine_avg (map (\<lambda>d'. best (solve_state
          \<lparr>stage = 2, rerolls = r - 1, dice = d', set1_score = s1\<rparr>)) FOUR_OUTS)"
  have rm: "reroll_m (solve_state ?s) = Some ?rm" by (rule reroll_ev[OF True])
  have "best (solve_state ?s) = best (choose_best (freeze_m (solve_state ?s)) (Some ?rm))"
    using solve_state_choose[of ?s] rm by simp
  then have "best_ev 2 r d s1 = max (real_of_int (s1 + score_set d)) (ev ?rm)"
    unfolding best_ev_def by (simp add: freeze_m_stage2 choose_best_point max_def)
  with True show ?thesis by (simp add: avg_best_ev_def)
qed

lemma best_ev_stage2_mono_nat: "best_ev 2 (int k) d s1 \<le> best_ev 2 (int (Suc k)) d s1"
proof (induction k arbitrary: d)
  case 0
  show ?case by (simp add: best_ev_stage2)
next
  case (Suc k)
  have a: "avg_best_ev 2 (int k) s1 \<le> avg_best_ev 2 (int (Suc k)) s1"
    by (rule avg_best_ev_mono) (rule Suc.IH)
  have l: "best_ev 2 (int (Suc k)) d s1
      = max (real_of_int (s1 + score_set d)) (avg_best_ev 2 (int k) s1)"
    by (subst best_ev_stage2) simp
  have r: "best_ev 2 (int (Suc (Suc k))) d s1
      = max (real_of_int (s1 + score_set d)) (avg_best_ev 2 (int (Suc k)) s1)"
    by (subst best_ev_stage2) simp
  show ?case
    unfolding l r by (rule max.mono[OF order_refl a])
qed

lemma best_ev_stage2_mono: "best_ev 2 r d s1 \<le> best_ev 2 (r + 1) d s1"
proof (cases "0 \<le> r")
  case True
  then have e: "int (nat r) = r" "int (Suc (nat r)) = r + 1" by simp_all
  from best_ev_stage2_mono_nat[of "nat r" d s1] show ?thesis unfolding e .
next
  case False
  then show ?thesis by (simp add: best_ev_stage2)
qed

lemma avg_stage2_mono: "avg_best_ev 2 r s1 \<le> avg_best_ev 2 (r + 1) s1"
  by (rule avg_best_ev_mono) (rule best_ev_stage2_mono)

subsection \<open>What one more reroll is worth at stage 2\<close>

text \<open>
  The dice 6, 6, 6, 6 score -24, the least; with a reroll they are rerolled. So the best EV
  of that state grows by 30 with the first reroll and by at least a 126th of the previous
  growth with every further one, and the average over the outcomes grows by at least a
  126th of that.
\<close>

lemma sixes_in_FOUR_OUTS: "[6, 6, 6, 6] \<in> set FOUR_OUTS"
  by (simp add: FOUR_OUTS_eq four_outs_list_def)

lemma avg_stage2_zero: "avg_best_ev 2 0 s1 = real_of_int s1 + 6"
proof -
  have "reroll_m (solve_state \<lparr>stage = 2, rerolls = 1, dice = [], set1_score = s1\<rparr>)
          = Some (combine_avg (map (\<lambda>d'. best (solve_state
              \<lparr>stage = 2, rerolls = 0, dice = d', set1_score = s1\<rparr>)) FOUR_OUTS))"
    using reroll_ev[of 1 2 "[]" s1] by simp
  then have "combine_avg (map (\<lambda>d'. best (solve_state
              \<lparr>stage = 2, rerolls = 0, dice = d', set1_score = s1\<rparr>)) FOUR_OUTS)
          = \<lparr>ev = real_of_int s1 + 6,
             ev2 = real_of_int s1 * real_of_int s1 + 12 * real_of_int s1 + 2306 / 21\<rparr>"
    unfolding reroll_m_stage2_one by simp
  then show ?thesis
    unfolding avg_best_ev_def by simp
qed

lemma avg_stage2_ge_zero: "avg_best_ev 2 0 s1 \<le> avg_best_ev 2 (int k) s1"
proof (induction k)
  case 0
  show ?case by simp
next
  case (Suc k)
  have "avg_best_ev 2 (int k) s1 \<le> avg_best_ev 2 (int k + 1) s1" by (rule avg_stage2_mono)
  with Suc show ?case by (simp add: add.commute)
qed

lemma best_ev_sixes: "best_ev 2 (int (Suc k)) [6, 6, 6, 6] s1 = avg_best_ev 2 (int k) s1"
proof -
  have "real_of_int (s1 + score_set [6, 6, 6, 6]) \<le> avg_best_ev 2 0 s1"
    by (simp add: avg_stage2_zero score_set_sum)
  also have "\<dots> \<le> avg_best_ev 2 (int k) s1" by (rule avg_stage2_ge_zero)
  finally have "max (real_of_int (s1 + score_set [6, 6, 6, 6])) (avg_best_ev 2 (int k) s1)
                  = avg_best_ev 2 (int k) s1"
    by (rule max_absorb2)
  then show ?thesis by (subst best_ev_stage2) simp
qed

lemma sixes_gain:
  "30 / 126 ^ k \<le> best_ev 2 (int (Suc k)) [6, 6, 6, 6] s1 - best_ev 2 (int k) [6, 6, 6, 6] s1"
proof (induction k)
  case 0
  have b0: "best_ev 2 (int 0) [6, 6, 6, 6] s1 = real_of_int s1 - 24"
    by (subst best_ev_stage2) (simp add: score_set_sum)
  have b1: "best_ev 2 (int (Suc 0)) [6, 6, 6, 6] s1 = avg_best_ev 2 (int 0) s1"
    by (rule best_ev_sixes)
  show ?case unfolding b0 b1 by (simp add: avg_stage2_zero)
next
  case (Suc k)
  have "30 / 126 ^ Suc k = (30 / 126 ^ k) / (126::real)" by simp
  also have "\<dots> \<le> (best_ev 2 (int (Suc k)) [6, 6, 6, 6] s1 - best_ev 2 (int k) [6, 6, 6, 6] s1) / 126"
    by (rule divide_right_mono[OF Suc.IH]) simp
  also have "\<dots> \<le> avg_best_ev 2 (int (Suc k)) s1 - avg_best_ev 2 (int k) s1"
    by (rule avg_best_ev_gap[OF best_ev_stage2_mono_nat sixes_in_FOUR_OUTS])
  finally show ?case by (simp only: best_ev_sixes)
qed

lemma avg_stage2_gain:
  "30 / 126 ^ Suc k \<le> avg_best_ev 2 (int (Suc k)) s1 - avg_best_ev 2 (int k) s1"
proof -
  have "30 / 126 ^ Suc k = (30 / 126 ^ k) / (126::real)" by simp
  also have "\<dots> \<le> (best_ev 2 (int (Suc k)) [6, 6, 6, 6] s1 - best_ev 2 (int k) [6, 6, 6, 6] s1) / 126"
    by (rule divide_right_mono[OF sixes_gain]) simp
  also have "\<dots> \<le> avg_best_ev 2 (int (Suc k)) s1 - avg_best_ev 2 (int k) s1"
    by (rule avg_best_ev_gap[OF best_ev_stage2_mono_nat sixes_in_FOUR_OUTS])
  finally show ?thesis .
qed

text \<open>Up to six rerolls that gain is at least the tolerance of the choice.\<close>

lemma tolerance_le_gain:
  assumes "k \<le> 6"
  shows "ev_tolerance \<le> 30 / 126 ^ k"
proof -
  have "(126::real) ^ k \<le> 126 ^ 6" by (rule power_increasing[OF assms]) simp
  also have "\<dots> \<le> 30 * 10 ^ 12" by simp
  finally have "(126::real) ^ k \<le> 30 * 10 ^ 12" .
  then have "1 / (10::real) ^ 12 \<le> 30 / 126 ^ k"
    by (simp add: field_simps)
  then show ?thesis by (simp only: ev_tolerance_def)
qed

subsection \<open>Stage 1\<close>

lemma best_ev_stage1_mono_nat:
  assumes "st \<noteq> 2" "k \<le> 5"
  shows "best_ev st (int k) d s1 \<le> best_ev st (int (Suc k)) d s1"
  using assms(2)
proof (induction k arbitrary: d)
  case 0
  let ?sc = "score_set d"
  have "best_ev st (int 0) d s1 = avg_best_ev 2 (int 0) ?sc"
    by (simp add: best_ev_no_rerolls freeze_ev_stage1[OF assms(1)])
  also have "\<dots> \<le> avg_best_ev 2 (int (Suc 0)) ?sc - 30 / 126 ^ Suc 0"
    using avg_stage2_gain[of 0 ?sc] by linarith
  also have "\<dots> \<le> avg_best_ev 2 (int (Suc 0)) ?sc - ev_tolerance"
    using tolerance_le_gain[of "Suc 0"] by linarith
  also have "\<dots> \<le> best_ev st (int (Suc 0)) d s1"
    using best_ev_rerolls(2)[of "int (Suc 0)" st d s1]
    by (simp add: freeze_ev_stage1[OF assms(1)])
  finally show ?case .
next
  case (Suc k)
  let ?sc = "score_set d"
  from Suc.prems have k: "k \<le> 5" and k2: "Suc (Suc k) \<le> 6" by simp_all
  have r1: "int (Suc k) - 1 = int k" and r2: "int (Suc (Suc k)) - 1 = int (Suc k)" by simp_all
  have up: "best_ev st (int (Suc k)) d s1
        \<le> max (avg_best_ev 2 (int (Suc k)) ?sc) (avg_best_ev st (int k) s1)"
    using best_ev_rerolls(3)[of "int (Suc k)" st d s1]
    unfolding r1 by (simp add: freeze_ev_stage1[OF assms(1)])
  have "avg_best_ev st (int k) s1 \<le> avg_best_ev st (int (Suc k)) s1"
    by (rule avg_best_ev_mono) (rule Suc.IH[OF k])
  also have "\<dots> \<le> best_ev st (int (Suc (Suc k))) d s1"
    using best_ev_rerolls(1)[of "int (Suc (Suc k))" st s1 d]
    unfolding r2 by simp
  finally have a: "avg_best_ev st (int k) s1 \<le> best_ev st (int (Suc (Suc k))) d s1" .
  have "avg_best_ev 2 (int (Suc k)) ?sc
          \<le> avg_best_ev 2 (int (Suc (Suc k))) ?sc - 30 / 126 ^ Suc (Suc k)"
    using avg_stage2_gain[of "Suc k" ?sc] by linarith
  also have "\<dots> \<le> avg_best_ev 2 (int (Suc (Suc k))) ?sc - ev_tolerance"
    using tolerance_le_gain[OF k2] by linarith
  also have "\<dots> \<le> best_ev st (int (Suc (Suc k))) d s1"
    using best_ev_rerolls(2)[of "int (Suc (Suc k))" st d s1]
    by (simp add: freeze_ev_stage1[OF assms(1)])
  finally have b: "avg_best_ev 2 (int (Suc k)) ?sc \<le> best_ev st (int (Suc (Suc k))) d s1" .
  from up a b show ?case by (simp only: max_def split: if_splits)
qed

lemma best_ev_stage1_mono:
  assumes "st \<noteq> 2" "r \<le> 5"
  shows "best_ev st r d s1 \<le> best_ev st (r + 1) d s1"
proof (cases "0 \<le> r")
  case True
  with assms(2) have k: "nat r \<le> 5" by simp
  from True have e: "int (nat r) = r" "int (Suc (nat r)) = r + 1" by simp_all
  from best_ev_stage1_mono_nat[OF assms(1) k, of d s1] show ?thesis unfolding e .
next
  case False
  then have "best_ev st r d s1 = avg_best_ev 2 r (score_set d)"
    and "best_ev st (r + 1) d s1 = avg_best_ev 2 (r + 1) (score_set d)"
    by (simp_all add: best_ev_no_rerolls freeze_ev_stage1[OF assms(1)])
  then show ?thesis by (simp only: avg_stage2_mono)
qed

lemma best_ev_mono:
  assumes "st = 2 \<or> r \<le> 5"
  shows "best_ev st r d s1 \<le> best_ev st (r + 1) d s1"
proof (cases "st = 2")
  case True
  then show ?thesis by (simp only: best_ev_stage2_mono)
next
  case False
  with assms have "r \<le> 5" by simp
  from best_ev_stage1_mono[OF False this] show ?thesis .
qed

section \<open>Claim on the reroll budget of the sprint solver\<close>

text \<open>
  Claim C6. For every stage, dice and carried set-1 score, one more reroll (all other
  fields equal) never lowers the best EV that \<open>solve_state\<close> returns. For a stage-2 state
  this holds for every budget; for the other states it is proved for the budgets up to 5
  before the increase, which cover the budgets 0 to 5 of the source. (At stage 1 a reroll
  can win a tie within the tolerance with a slightly smaller EV; up to six rerolls the
  gain of one more reroll in the fan-out exceeds the tolerance.)
\<close>

theorem C6_more_rerolls_never_worse:
  "stage s = 2 \<or> rerolls s \<le> 5 \<Longrightarrow>
     ev (best (solve_state s)) \<le> ev (best (solve_state (s\<lparr>rerolls := rerolls s + 1\<rparr>)))"
proof -
  assume a: "stage s = 2 \<or> rerolls s \<le> 5"
  have s: "s = \<lparr>stage = stage s, rerolls = rerolls s, dice = dice s, set1_score = set1_score s\<rparr>"
    by simp
  have s': "s\<lparr>rerolls := rerolls s + 1\<rparr>
      = \<lparr>stage = stage s, rerolls = rerolls s + 1, dice = dice s, set1_score = set1_score s\<rparr>"
    by simp
  from best_ev_mono[OF a, of "dice s" "set1_score s"]
  have "ev (best (solve_state
           \<lparr>stage = stage s, rerolls = rerolls s, dice = dice s, set1_score = set1_score s\<rparr>))
        \<le> ev (best (solve_state
           \<lparr>stage = stage s, rerolls = rerolls s + 1, dice = dice s, set1_score = set1_score s\<rparr>))"
    unfolding best_ev_def .
  then show ?thesis unfolding s' using s by simp
qed

lemma best_ev_first_state: "best_ev 1 0 [1, 1, 1, 1] 7777 = 10"
proof -
  have "best_ev 1 0 [1, 1, 1, 1] 7777 = avg_best_ev 2 0 (score_set [1, 1, 1, 1])"
    by (simp add: best_ev_no_rerolls freeze_ev_stage1)
  then show ?thesis by (simp add: avg_stage2_zero score_set_sum)
qed

theorem C6_more_rerolls_never_worse_witness:
  "rerolls \<lparr>stage = 1, rerolls = 0, dice = [1, 1, 1, 1], set1_score = 7777\<rparr> \<le> 5
   \<and> ev (best (solve_state \<lparr>stage = 1, rerolls = 0, dice = [1, 1, 1, 1], set1_score = 7777\<rparr>)) = 10
   \<and> 10 \<le> ev (best (solve_state \<lparr>stage = 1, rerolls = 1, dice = [1, 1, 1, 1], set1_score = 7777\<rparr>))"
proof -
  have v: "ev (best (solve_state \<lparr>stage = 1, rerolls = 0, dice = [1, 1, 1, 1], set1_score = 7777\<rparr>)) = 10"
    using best_ev_first_state by (simp add: best_ev_def)
  from C6_more_rerolls_never_worse[of "\<lparr>stage = 1, rerolls = 0, dice = [1, 1, 1, 1], set1_score = 7777\<rparr>"]
  have "ev (best (solve_state \<lparr>stage = 1, rerolls = 0, dice = [1, 1, 1, 1], set1_score = 7777\<rparr>))
        \<le> ev (best (solve_state \<lparr>stage = 1, rerolls = 1, dice = [1, 1, 1, 1], set1_score = 7777\<rparr>))"
    by simp
  with v show ?thesis by simp
qed


end
